theory Spec2Isabelle
  imports Main "HOL-Library.Char_ord" "HOL-Library.List_Lexorder" "HOL-Library.Multiset"
begin

section \<open>Folder sizes of the latest merged partition: the model of \<^verbatim>\<open>main.py\<close>\<close>

text \<open>
  \<^verbatim>\<open>main.py\<close> lists a root folder of an HDFS volume, keeps the sub-folders that hold
  \<^verbatim>\<open>control/merge.done\<close>, takes the greatest name among them, walks
  \<^verbatim>\<open><root>/<name>/barrels/current\<close> recursively summing file lengths, stores one gauge
  sample per folder and pushes the gauge to a Prometheus Pushgateway.

  The module talks to the world through three things, which the model takes as the fields of
  an environment: the HDFS client's \<^verbatim>\<open>list(path, status=True)\<close>, the working directory
  that \<^verbatim>\<open>os.path.relpath\<close> reads, and \<^verbatim>\<open>push_to_gateway\<close>. Python strings are
  \<^typ>\<open>string\<close>, Python's unbounded integers are \<^typ>\<open>int\<close>, an exception that the
  code does not catch is the left summand of the result.
\<close>

subsection \<open>Exceptions that can leave the functions\<close>

text \<open>
  \<^verbatim>\<open>RecursionError\<close>: the interpreter's bound on nested calls is exceeded by
  \<^verbatim>\<open>list_dirs_recursive\<close> calling itself (the recursive call is outside the
  \<^verbatim>\<open>try\<close>). \<^verbatim>\<open>ValueError\<close>: \<^verbatim>\<open>os.path.relpath\<close> on an empty path.
\<close>

datatype error = RecursionError | ValueError

subsection \<open>The string functions of Python that the module uses\<close>

text \<open>\<^verbatim>\<open>s.split(c)\<close> for a one-character separator: never empty, \<^verbatim>\<open>"".split("/") == [""]\<close>.\<close>

fun split_sep :: "char \<Rightarrow> string \<Rightarrow> string list" where
  "split_sep c [] = [[]]"
| "split_sep c (x # xs) =
     (if x = c then [] # split_sep c xs
      else (case split_sep c xs of [] \<Rightarrow> [[x]] | w # ws \<Rightarrow> (x # w) # ws))"

text \<open>\<^verbatim>\<open>sep.join(parts)\<close>.\<close>

fun sep_join :: "string \<Rightarrow> string list \<Rightarrow> string" where
  "sep_join s [] = []"
| "sep_join s [x] = x"
| "sep_join s (x # y # ys) = x @ s @ sep_join s (y # ys)"

definition startswith :: "string \<Rightarrow> string \<Rightarrow> bool" where
  "startswith s p = (take (length p) s = p)"

definition endswith :: "string \<Rightarrow> string \<Rightarrow> bool" where
  "endswith s p = (length p \<le> length s \<and> drop (length s - length p) s = p)"

text \<open>\<^verbatim>\<open>s.replace(old, new)\<close> for one-character arguments.\<close>

definition replace :: "char \<Rightarrow> char \<Rightarrow> string \<Rightarrow> string" where
  "replace old new s = map (\<lambda>c. if c = old then new else c) s"

subsection \<open>\<^verbatim>\<open>os.path\<close> (the POSIX flavour, \<^verbatim>\<open>posixpath.py\<close>)\<close>

text \<open>
  \<^verbatim>\<open>
  def join(a, *p):
      path = a
      for b in p:
          if b.startswith('/'):          path = b
          elif not path or path.endswith('/'):  path += b
          else:                          path += '/' + b
      return path
  \<close>
\<close>

definition join2 :: "string \<Rightarrow> string \<Rightarrow> string" where
  "join2 path b =
     (if startswith b ''/'' then b
      else if path = [] \<or> endswith path ''/'' then path @ b
      else path @ ''/'' @ b)"

definition join :: "string \<Rightarrow> string list \<Rightarrow> string" where
  "join a p = foldl join2 a p"

text \<open>
  \<^verbatim>\<open>
  def normpath(path):
      if not path: return '.'
      initial_slashes = path.startswith('/')
      if initial_slashes and path.startswith('//') and not path.startswith('///'):
          initial_slashes = 2
      comps = path.split('/')
      new_comps = []
      for comp in comps:
          if comp in ('', '.'): continue
          if (comp != '..' or (not initial_slashes and not new_comps) or
               (new_comps and new_comps[-1] == '..')):
              new_comps.append(comp)
          elif new_comps:
              new_comps.pop()
      path = '/'.join(new_comps)
      if initial_slashes: path = '/'*initial_slashes + path
      return path or '.'
  \<close>
  \<open>norm_step\<close> is one round of the loop.
\<close>

definition norm_step :: "nat \<Rightarrow> string list \<Rightarrow> string \<Rightarrow> string list" where
  "norm_step initial_slashes new_comps comp1 =
     (if comp1 = [] \<or> comp1 = ''.'' then new_comps
      else if comp1 \<noteq> ''..'' \<or> (initial_slashes = 0 \<and> new_comps = [])
                \<or> (new_comps \<noteq> [] \<and> last new_comps = ''..'')
        then new_comps @ [comp1]
      else if new_comps \<noteq> [] then butlast new_comps
      else new_comps)"

definition initial_slashes_of :: "string \<Rightarrow> nat" where
  "initial_slashes_of path =
     (if startswith path ''/''
      then (if startswith path ''//'' \<and> \<not> startswith path ''///'' then 2 else 1)
      else 0)"

definition normpath :: "string \<Rightarrow> string" where
  "normpath path =
     (if path = [] then ''.''
      else
        let initial_slashes = initial_slashes_of path;
            comps = split_sep CHR ''/'' path;
            new_comps = foldl (norm_step initial_slashes) [] comps;
            path1 = sep_join ''/'' new_comps;
            path2 = replicate initial_slashes CHR ''/'' @ path1
        in if path2 = [] then ''.'' else path2)"

definition isabs :: "string \<Rightarrow> bool" where
  "isabs s = startswith s ''/''"

text \<open>\<^verbatim>\<open>abspath\<close> joins a relative path to \<^verbatim>\<open>os.getcwd()\<close>, here the argument \<open>cwd\<close>.\<close>

definition abspath :: "string \<Rightarrow> string \<Rightarrow> string" where
  "abspath cwd path = normpath (if isabs path then path else join cwd [path])"

text \<open>\<^verbatim>\<open>commonprefix([xs, ys])\<close> on two lists of components: their longest common prefix.\<close>

fun commonprefix :: "'a list \<Rightarrow> 'a list \<Rightarrow> 'a list" where
  "commonprefix (x # xs) (y # ys) = (if x = y then x # commonprefix xs ys else [])"
| "commonprefix _ _ = []"

text \<open>
  \<^verbatim>\<open>
  def relpath(path, start):
      if not path: raise ValueError("no path specified")
      start_list = [x for x in abspath(start).split('/') if x]
      path_list = [x for x in abspath(path).split('/') if x]
      i = len(commonprefix([start_list, path_list]))
      rel_list = ['..'] * (len(start_list)-i) + path_list[i:]
      if not rel_list: return '.'
      return join(*rel_list)
  \<close>
\<close>

definition relpath :: "string \<Rightarrow> string \<Rightarrow> string \<Rightarrow> error + string" where
  "relpath cwd path start =
     (if path = [] then Inl ValueError
      else
        let start_list = filter (\<lambda>x. x \<noteq> []) (split_sep CHR ''/'' (abspath cwd start));
            path_list = filter (\<lambda>x. x \<noteq> []) (split_sep CHR ''/'' (abspath cwd path));
            i = length (commonprefix start_list path_list);
            rel_list = replicate (length start_list - i) ''..'' @ drop i path_list
        in (case rel_list of [] \<Rightarrow> Inr ''.'' | a # p \<Rightarrow> Inr (join a p)))"

subsection \<open>The environment: HDFS client, working directory, Pushgateway\<close>

text \<open>
  One entry of \<^verbatim>\<open>client.list(path, status=True)\<close> is a pair of a name and a status
  dictionary; the module reads its keys \<^verbatim>\<open>"type"\<close> and \<^verbatim>\<open>"length"\<close>.
\<close>

record item =
  item_type :: string
  item_length :: int

type_synonym statuses = "(string \<times> item) list"

text \<open>
  \<open>client_list env path\<close> is \<^verbatim>\<open>client.list(path, status=True)\<close>: \<open>None\<close> when the call
  raises. \<open>push_to_gateway env samples\<close> tells whether the push of these samples returns
  (\<open>True\<close>) or raises (\<open>False\<close>).
\<close>

record env =
  client_list :: "string \<Rightarrow> statuses option"
  getcwd :: string
  push_to_gateway :: "(string \<times> int) list \<Rightarrow> bool"

subsection \<open>What the module leaves behind: gauge samples, log records, pushes\<close>

text \<open>
  \<^verbatim>\<open>Gauge.set(value)\<close> of the client library stores \<^verbatim>\<open>float(value)\<close>. Python converts
  an integer to the nearest double, ties to the even mantissa: an integer of at most 53 bits
  is kept, a longer one is rounded to its leading 53 bits. The result is again an integer,
  and \<open>py_float v\<close> is that integer. \<open>bit_length\<close> is \<^verbatim>\<open>int.bit_length\<close>. (A double
  ends below \<open>2^1024\<close>, where Python raises \<^verbatim>\<open>OverflowError\<close>; the lengths of an HDFS
  volume, 64-bit each, do not add up to that, and the model rounds on.)
\<close>

fun bit_length :: "nat \<Rightarrow> nat" where
  "bit_length n = (if n = 0 then 0 else Suc (bit_length (n div 2)))"

declare bit_length.simps [simp del]

definition py_float :: "int \<Rightarrow> int" where
  "py_float v =
     (let a = nat \<bar>v\<bar>;
          shift = bit_length a - 53;
          q = a div 2 ^ shift;
          r = a mod 2 ^ shift;
          rounded = (if 2 ^ shift < 2 * r \<or> (2 * r = 2 ^ shift \<and> odd q) then q + 1 else q)
      in sgn v * int (rounded * 2 ^ shift))"

text \<open>
  The gauge \<^verbatim>\<open>disk_usage_bytes\<close> keeps one child per value of its label
  \<^verbatim>\<open>folder\<close>, in the order the labels were first used;
  \<^verbatim>\<open>file_size_metric.labels(folder=l).set(v)\<close> creates the child or overwrites its value,
  with \<^verbatim>\<open>float(v)\<close>.
\<close>

fun gauge_set :: "string \<Rightarrow> int \<Rightarrow> (string \<times> int) list \<Rightarrow> (string \<times> int) list" where
  "gauge_set l v [] = [(l, py_float v)]"
| "gauge_set l v ((k, w) # rest) =
     (if k = l then (k, py_float v) # rest else (k, w) # gauge_set l v rest)"

text \<open>The log records, one constructor per \<^verbatim>\<open>logging\<close> call of the module.\<close>

datatype log_record =
    Warning_error_reading_folder string
  | Info_folder string
  | Info_size int
  | Error_path_unreachable string
  | Info_no_folders
  | Info_only_latest string
  | Info_pushed
  | Error_pushing

record effects =
  file_size_metric :: "(string \<times> int) list"
  logged :: "log_record list"

text \<open>
  A finished run: the effects, the sample lists handed to \<^verbatim>\<open>push_to_gateway\<close>, and
  whether the run has constructed its \<^verbatim>\<open>CollectorRegistry\<close> and the gauge in it (lines
  112 to 114). Where it has not, there is no gauge, and \<open>file_size_metric\<close> is \<open>[]\<close>.
\<close>

record run = effects +
  pushes :: "(string \<times> int) list list"
  registry_built :: bool

subsection \<open>\<^verbatim>\<open>list_dirs_recursive\<close>\<close>

text \<open>
  Lines 78 to 82: the label of \<open>path\<close> in a walk that started at \<open>base_path\<close>.
\<close>

definition folder_label :: "string \<Rightarrow> string \<Rightarrow> string \<Rightarrow> error + string" where
  "folder_label cwd path base_path =
     (case relpath cwd path base_path of
        Inl e \<Rightarrow> Inl e
      | Inr r \<Rightarrow>
          (let rel_path = replace (CHR 0x5C) CHR ''/'' r
           in if rel_path = ''.'' then Inr ''/'' else Inr (''/'' @ rel_path)))"

text \<open>
  \<open>list_dirs_recursive depth env path fx base_path\<close>: \<open>depth\<close> is the number of nested calls
  the interpreter still allows, \<open>fx\<close> the gauge and the log before the call; the result is
  the returned \<^verbatim>\<open>total_size\<close> with the gauge and the log after the call.
  \<open>for_statuses\<close> is the \<^verbatim>\<open>for name, item in statuses\<close> loop, its accumulator the
  running \<^verbatim>\<open>total_size\<close>. (The parameter \<^verbatim>\<open>registry\<close> is only handed on; the
  samples live in the gauge.)
\<close>

fun list_dirs_recursive :: "nat \<Rightarrow> env \<Rightarrow> string \<Rightarrow> effects \<Rightarrow> string \<Rightarrow> error + (int \<times> effects)"
  and for_statuses :: "nat \<Rightarrow> env \<Rightarrow> string \<Rightarrow> string \<Rightarrow> statuses \<Rightarrow> int \<Rightarrow> effects \<Rightarrow> error + (int \<times> effects)"
where
  "list_dirs_recursive 0 env path fx base_path = Inl RecursionError"
| "list_dirs_recursive (Suc depth) env path fx base_path =
     (case client_list env path of
        None \<Rightarrow> Inr (0, fx\<lparr>logged := logged fx @ [Warning_error_reading_folder path]\<rparr>)
      | Some statuses \<Rightarrow>
          (case for_statuses depth env path base_path statuses 0 fx of
             Inl e \<Rightarrow> Inl e
           | Inr (total_size, fx1) \<Rightarrow>
               (case folder_label (getcwd env) path base_path of
                  Inl e \<Rightarrow> Inl e
                | Inr rel_path \<Rightarrow>
                    Inr (total_size,
                         fx1\<lparr>file_size_metric := gauge_set rel_path total_size (file_size_metric fx1),
                             logged := logged fx1 @ [Info_folder rel_path, Info_size total_size]\<rparr>))))"
| "for_statuses depth env path base_path [] total_size fx = Inr (total_size, fx)"
| "for_statuses depth env path base_path ((name, item) # rest) total_size fx =
     (let full_path = path @ ''/'' @ name
      in if item_type item = ''DIRECTORY''
         then (case list_dirs_recursive depth env full_path fx base_path of
                 Inl e \<Rightarrow> Inl e
               | Inr (size1, fx1) \<Rightarrow> for_statuses depth env path base_path rest (total_size + size1) fx1)
         else for_statuses depth env path base_path rest (total_size + item_length item) fx)"

subsection \<open>\<^verbatim>\<open>has_merge_done\<close>\<close>

definition has_merge_done :: "env \<Rightarrow> string \<Rightarrow> bool" where
  "has_merge_done env path =
     (let control_path = path @ ''/control''
      in case client_list env control_path of
           None \<Rightarrow> False
         | Some statuses \<Rightarrow> list_ex (\<lambda>(name, item). name = ''merge.done'') statuses)"

subsection \<open>\<^verbatim>\<open>process_latest_valid_folder\<close>\<close>

text \<open>
  Lines 116 to 121: the names of the \<^verbatim>\<open>DIRECTORY\<close> entries of the root listing that
  pass \<open>has_merge_done\<close>, in listing order.
\<close>

definition valid_folders :: "env \<Rightarrow> string \<Rightarrow> statuses \<Rightarrow> string list" where
  "valid_folders env root_path statuses =
     map fst (filter (\<lambda>(name, item). item_type item = ''DIRECTORY''
                          \<and> has_merge_done env (root_path @ ''/'' @ name)) statuses)"

text \<open>
  The function has no \<^verbatim>\<open>return\<close> with a value: whenever it returns, it returns
  \<^verbatim>\<open>None\<close>, here \<open>()\<close>. The order of \<^verbatim>\<open>sorted\<close> on strings is the lexicographic
  order of \<^typ>\<open>string\<close> (Python compares code points, and on UTF-8 bytes the two agree).
\<close>

definition process_latest_valid_folder :: "nat \<Rightarrow> env \<Rightarrow> string \<Rightarrow> error + (unit \<times> run)" where
  "process_latest_valid_folder depth env root_path =
     (case client_list env root_path of
        None \<Rightarrow>
          Inr ((), \<lparr>file_size_metric = [], logged = [Error_path_unreachable root_path], pushes = [],
                    registry_built = False\<rparr>)
      | Some statuses \<Rightarrow>
          (let valid = valid_folders env root_path statuses
           in if valid = []
              then Inr ((), \<lparr>file_size_metric = [], logged = [Info_no_folders], pushes = [],
                            registry_built = True\<rparr>)
              else
                (let latest_folder = last (sort valid);
                     folder_path = root_path @ ''/'' @ latest_folder @ ''/barrels/current''
                 in case list_dirs_recursive depth env folder_path
                           \<lparr>file_size_metric = [], logged = [Info_only_latest folder_path]\<rparr> folder_path of
                      Inl e \<Rightarrow> Inl e
                    | Inr (total_size, fx) \<Rightarrow>
                        Inr ((), \<lparr>file_size_metric = file_size_metric fx,
                                  logged = logged fx @
                                    [if push_to_gateway env (file_size_metric fx)
                                     then Info_pushed else Error_pushing],
                                  pushes = [file_size_metric fx],
                                  registry_built = True\<rparr>))))"

subsection \<open>The folder tree that the listings report\<close>

text \<open>
  What a walk can see below a path: a file with its length (any entry whose type is not
  \<^verbatim>\<open>DIRECTORY\<close>), a folder whose listing fails, or a folder with its entries by name.
\<close>

datatype tree = File int | Unlistable | Dir "(string \<times> tree) list"

text \<open>
  \<open>represents env path t\<close>: the listings of \<open>env\<close> at \<open>path\<close> and below it report
  exactly the tree \<open>t\<close>, entry by entry and in listing order.
\<close>

fun represents :: "env \<Rightarrow> string \<Rightarrow> tree \<Rightarrow> bool"
  and represents_entries :: "env \<Rightarrow> string \<Rightarrow> statuses \<Rightarrow> (string \<times> tree) list \<Rightarrow> bool"
where
  "represents env path (File n) = False"
| "represents env path Unlistable = (client_list env path = None)"
| "represents env path (Dir children) =
     (case client_list env path of
        None \<Rightarrow> False
      | Some statuses \<Rightarrow> represents_entries env path statuses children)"
| "represents_entries env path [] [] = True"
| "represents_entries env path ((name, item) # statuses) ((name', child) # children) =
     (name' = name
      \<and> (case child of
           File n \<Rightarrow> item_type item \<noteq> ''DIRECTORY'' \<and> item_length item = n
         | _ \<Rightarrow> item_type item = ''DIRECTORY'' \<and> represents env (path @ ''/'' @ name) child)
      \<and> represents_entries env path statuses children)"
| "represents_entries env path _ _ = False"

text \<open>The byte lengths of all files of a tree, at any depth.\<close>

fun files_of :: "tree \<Rightarrow> int list" where
  "files_of (File n) = [n]"
| "files_of Unlistable = []"
| "files_of (Dir children) = concat (map (\<lambda>(name, child). files_of child) children)"

text \<open>The number of nested calls a walk of the tree needs.\<close>

fun nesting :: "tree \<Rightarrow> nat" where
  "nesting (File n) = 0"
| "nesting Unlistable = 1"
| "nesting (Dir children) = Suc (foldr (\<lambda>(name, child). max (nesting child)) children 0)"

text \<open>
  The listed folders of a tree that sits at \<open>path\<close>, each with its own path, children
  before their parent (post-order).
\<close>

fun folders_of :: "string \<Rightarrow> tree \<Rightarrow> (string \<times> tree) list" where
  "folders_of path (File n) = []"
| "folders_of path Unlistable = []"
| "folders_of path (Dir children) =
     concat (map (\<lambda>(name, child). folders_of (path @ ''/'' @ name) child) children)
     @ [(path, Dir children)]"

text \<open>The label of a non-empty path, where \<open>folder_label\<close> cannot fail.\<close>

definition label_of :: "string \<Rightarrow> string \<Rightarrow> string \<Rightarrow> string" where
  "label_of cwd path base_path =
     (case folder_label cwd path base_path of Inl e \<Rightarrow> [] | Inr l \<Rightarrow> l)"

text \<open>
  The readings of a tree: for every listed folder, in post-order, its label and the sum of
  the lengths of all files below it.
\<close>

definition readings :: "string \<Rightarrow> string \<Rightarrow> string \<Rightarrow> tree \<Rightarrow> (string \<times> int) list" where
  "readings cwd base_path path t =
     map (\<lambda>(p, folder). (label_of cwd p base_path, sum_list (files_of folder))) (folders_of path t)"

text \<open>The log records of a walk of the tree.\<close>

fun records :: "string \<Rightarrow> string \<Rightarrow> string \<Rightarrow> tree \<Rightarrow> log_record list" where
  "records cwd base_path path (File n) = []"
| "records cwd base_path path Unlistable = [Warning_error_reading_folder path]"
| "records cwd base_path path (Dir children) =
     concat (map (\<lambda>(name, child). records cwd base_path (path @ ''/'' @ name) child) children)
     @ [Info_folder (label_of cwd path base_path), Info_size (sum_list (files_of (Dir children)))]"

text \<open>Setting a list of samples one after the other, and the effects of a whole walk.\<close>

definition gauge_set_all :: "(string \<times> int) list \<Rightarrow> (string \<times> int) list \<Rightarrow> (string \<times> int) list" where
  "gauge_set_all rs samples = fold (\<lambda>(l, v). gauge_set l v) rs samples"

definition after_walk :: "effects \<Rightarrow> (string \<times> int) list \<Rightarrow> log_record list \<Rightarrow> effects" where
  "after_walk fx rs logs =
     fx\<lparr>file_size_metric := gauge_set_all rs (file_size_metric fx), logged := logged fx @ logs\<rparr>"

text \<open>
  Two environments that differ only in the order of the entries of their listings, and two
  trees that differ only in the order of the children of their folders.
\<close>

definition reordered :: "env \<Rightarrow> env \<Rightarrow> bool" where
  "reordered env env' =
     (getcwd env' = getcwd env \<and> push_to_gateway env' = push_to_gateway env
      \<and> (\<forall>path. rel_option (\<lambda>statuses statuses'. mset statuses' = mset statuses)
                   (client_list env path) (client_list env' path)))"

inductive tree_perm :: "tree \<Rightarrow> tree \<Rightarrow> bool" where
  perm_File: "tree_perm (File n) (File n)"
| perm_Unlistable: "tree_perm Unlistable Unlistable"
| perm_Dir: "mset cs1 = mset cs \<Longrightarrow> list_all2 (rel_prod (=) tree_perm) cs1 cs'
     \<Longrightarrow> tree_perm (Dir cs) (Dir cs')"

text \<open>
  Entry names as a file system has them: not empty, without \<^verbatim>\<open>/\<close>, neither \<^verbatim>\<open>.\<close>
  nor \<^verbatim>\<open>..\<close>. The path of the folder reached from \<open>base_path\<close> through the entries
  \<open>names\<close> is built as line 70 builds \<^verbatim>\<open>full_path\<close>.
\<close>

definition proper_name :: "string \<Rightarrow> bool" where
  "proper_name name = (name \<noteq> [] \<and> CHR ''/'' \<notin> set name \<and> name \<noteq> ''.'' \<and> name \<noteq> ''..'')"

definition descend :: "string \<Rightarrow> string list \<Rightarrow> string" where
  "descend base_path names = foldl (\<lambda>path name. path @ ''/'' @ name) base_path names"

text \<open>
  For the proofs about \<^verbatim>\<open>relpath\<close>: the path that \<^verbatim>\<open>abspath\<close> normalises, and the
  components that \<^verbatim>\<open>normpath\<close> keeps of an absolute path.
\<close>

definition absolute_of :: "string \<Rightarrow> string \<Rightarrow> string" where
  "absolute_of cwd path = (if isabs path then path else join cwd [path])"

definition components :: "string \<Rightarrow> string list" where
  "components q = foldl (norm_step 1) [] (split_sep CHR ''/'' q)"

text \<open>
  For the proofs: one entry of a listing against one child of the tree, as \<open>represents_entries\<close>
  compares them.
\<close>

definition entry_rel :: "env \<Rightarrow> string \<Rightarrow> string \<times> item \<Rightarrow> string \<times> tree \<Rightarrow> bool" where
  "entry_rel env path entry node =
     (fst node = fst entry
      \<and> (case snd node of
           File n \<Rightarrow> item_type (snd entry) \<noteq> ''DIRECTORY'' \<and> item_length (snd entry) = n
         | _ \<Rightarrow> item_type (snd entry) = ''DIRECTORY''
                \<and> represents env (path @ ''/'' @ fst entry) (snd node)))"

subsection \<open>Concrete environments\<close>

text \<open>
  An environment from a table of listings: a path that the table lacks cannot be listed.
  The working directory is \<^verbatim>\<open>/\<close> and every push returns.
\<close>

definition env_of :: "(string \<times> statuses) list \<Rightarrow> env" where
  "env_of table = \<lparr>client_list = map_of table, getcwd = ''/'', push_to_gateway = (\<lambda>samples. True)\<rparr>"

definition dir_entry :: "string \<Rightarrow> string \<times> item" where
  "dir_entry name = (name, \<lparr>item_type = ''DIRECTORY'', item_length = 0\<rparr>)"

definition file_entry :: "string \<Rightarrow> int \<Rightarrow> string \<times> item" where
  "file_entry name n = (name, \<lparr>item_type = ''FILE'', item_length = n\<rparr>)"

text \<open>
  The two scenarios of the specification in one volume \<^verbatim>\<open>/vol\<close>: partition
  \<^verbatim>\<open>2024-01-01\<close> has no \<^verbatim>\<open>control\<close> folder, \<^verbatim>\<open>2024-02-01\<close> has
  \<^verbatim>\<open>control/merge.done\<close>, \<^verbatim>\<open>2024-03-01\<close> has \<^verbatim>\<open>control/other.flag\<close> only;
  \<^verbatim>\<open>2024-02-01/barrels/current\<close> holds \<^verbatim>\<open>a/file1\<close> (100 bytes),
  \<^verbatim>\<open>a/b/file2\<close> (50 bytes) and \<^verbatim>\<open>file3\<close> (10 bytes).
\<close>

definition scenario_table :: "(string \<times> statuses) list" where
  "scenario_table =
     [(''/vol'', [dir_entry ''2024-01-01'', dir_entry ''2024-02-01'', dir_entry ''2024-03-01'']),
      (''/vol/2024-01-01'', [dir_entry ''barrels'']),
      (''/vol/2024-02-01'', [dir_entry ''barrels'', dir_entry ''control'']),
      (''/vol/2024-02-01/control'', [file_entry ''merge.done'' 0]),
      (''/vol/2024-03-01'', [dir_entry ''control'']),
      (''/vol/2024-03-01/control'', [file_entry ''other.flag'' 0]),
      (''/vol/2024-02-01/barrels'', [dir_entry ''current'']),
      (''/vol/2024-02-01/barrels/current'', [dir_entry ''a'', file_entry ''file3'' 10]),
      (''/vol/2024-02-01/barrels/current/a'', [file_entry ''file1'' 100, dir_entry ''b'']),
      (''/vol/2024-02-01/barrels/current/a/b'', [file_entry ''file2'' 50])]"

definition scenario_env :: env where
  "scenario_env = env_of scenario_table"

text \<open>The tree of \<^verbatim>\<open>/vol/2024-02-01/barrels/current\<close> in this volume.\<close>

definition scenario_tree :: tree where
  "scenario_tree =
     Dir [(''a'', Dir [(''file1'', File 100), (''b'', Dir [(''file2'', File 50)])]),
          (''file3'', File 10)]"

text \<open>
  A folder \<^verbatim>\<open>/data\<close> whose files all lie two levels down: \<^verbatim>\<open>x\<close> holds only the
  folder \<^verbatim>\<open>y\<close>, \<^verbatim>\<open>y\<close> holds one file of 7 bytes, \<^verbatim>\<open>e\<close> is empty.
\<close>

definition nested_table :: "(string \<times> statuses) list" where
  "nested_table =
     [(''/data'', [dir_entry ''x'', dir_entry ''e'']),
      (''/data/x'', [dir_entry ''y'']),
      (''/data/x/y'', [file_entry ''f'' 7]),
      (''/data/e'', [])]"

definition nested_env :: env where
  "nested_env = env_of nested_table"

definition nested_tree :: tree where
  "nested_tree = Dir [(''x'', Dir [(''y'', Dir [(''f'', File 7)])]), (''e'', Dir [])]"

text \<open>
  A folder \<^verbatim>\<open>/data\<close> with a file of 5 bytes and a sub-folder \<^verbatim>\<open>x\<close> that cannot be
  listed.
\<close>

definition faulty_table :: "(string \<times> statuses) list" where
  "faulty_table = [(''/data'', [dir_entry ''x'', file_entry ''f1'' 5])]"

definition faulty_env :: env where
  "faulty_env = env_of faulty_table"

text \<open>
  Three more volumes \<^verbatim>\<open>/vol\<close>: one that cannot be listed at all; one whose only
  partition has no \<^verbatim>\<open>control\<close> folder; one whose only partition is merged but has
  no \<^verbatim>\<open>barrels/current\<close>.
\<close>

definition unreachable_env :: env where
  "unreachable_env = env_of []"

definition unmerged_env :: env where
  "unmerged_env = env_of [(''/vol'', [dir_entry ''2024-01-01'', file_entry ''notes'' 3]),
                          (''/vol/2024-01-01'', [dir_entry ''barrels''])]"

definition bare_env :: env where
  "bare_env = env_of [(''/vol'', [dir_entry ''2024-01-01'']),
                      (''/vol/2024-01-01/control'', [file_entry ''merge.done'' 0])]"

text \<open>
  The folder \<^verbatim>\<open>/data\<close> of \<open>nested_env\<close> with the two entries of its listing exchanged.
\<close>

definition nested_env' :: env where
  "nested_env' = env_of
     [(''/data'', [dir_entry ''e'', dir_entry ''x'']),
      (''/data/x'', [dir_entry ''y'']),
      (''/data/x/y'', [file_entry ''f'' 7]),
      (''/data/e'', [])]"

text \<open>
  A folder \<^verbatim>\<open>/data\<close> with the two sub-folders \<^verbatim>\<open>a\<close> and \<^verbatim>\<open>a\b\<close> (one name, with
  a backslash in it): \<^verbatim>\<open>a\<close> holds the folder \<^verbatim>\<open>b\<close> with a file of 1 byte,
  \<^verbatim>\<open>a\b\<close> holds a file of 2 bytes. The second environment lists the two sub-folders in
  the other order.
\<close>

definition clash_name :: string where
  "clash_name = ''a'' @ [CHR 0x5C] @ ''b''"

definition clash_env :: env where
  "clash_env = env_of
     [(''/data'', [dir_entry ''a'', dir_entry clash_name]),
      (''/data/a'', [dir_entry ''b'']),
      (''/data/a/b'', [file_entry ''f'' 1]),
      (''/data/'' @ clash_name, [file_entry ''g'' 2])]"

definition clash_env' :: env where
  "clash_env' = env_of
     [(''/data'', [dir_entry clash_name, dir_entry ''a'']),
      (''/data/a'', [dir_entry ''b'']),
      (''/data/a/b'', [file_entry ''f'' 1]),
      (''/data/'' @ clash_name, [file_entry ''g'' 2])]"

text \<open>The tree of \<^verbatim>\<open>/data\<close> in \<open>clash_env\<close>.\<close>

definition clash_tree :: tree where
  "clash_tree =
     Dir [(''a'', Dir [(''b'', Dir [(''f'', File 1)])]), (clash_name, Dir [(''g'', File 2)])]"

text \<open>
  A folder \<^verbatim>\<open>/data\<close> with one file of \<open>2^53 + 1\<close> bytes, the least length that a
  double does not hold.
\<close>

definition large_env :: env where
  "large_env = env_of [(''/data'', [file_entry ''f'' 9007199254740993])]"

section \<open>Properties\<close>

subsection \<open>Paths and labels\<close>

lemma split_sep_nonempty: "split_sep c s \<noteq> []"
  by (induction s) (auto split: list.splits)

lemma split_sep_no_sep: "c \<notin> set s \<Longrightarrow> split_sep c s = [s]"
  by (induction s) auto

lemma split_sep_append_sep: "split_sep c (s @ c # t) = split_sep c s @ split_sep c t"
  by (induction s) (auto split: list.splits simp: split_sep_nonempty)

lemma split_sep_parts_free: "w \<in> set (split_sep c s) \<Longrightarrow> c \<notin> set w"
  by (induction s arbitrary: w) (auto split: if_splits list.splits)

lemma split_sep_descend:
  "\<forall>n \<in> set names. CHR ''/'' \<notin> set n \<Longrightarrow>
   split_sep CHR ''/'' (descend q names) = split_sep CHR ''/'' q @ names"
proof (induction names arbitrary: q)
  case Nil
  then show ?case by (simp add: descend_def)
next
  case (Cons n names)
  have "descend q (n # names) = descend (q @ ''/'' @ n) names" by (simp add: descend_def)
  with Cons show ?case by (simp add: split_sep_append_sep split_sep_no_sep)
qed

lemma split_sep_join_roundtrip:
  "ws \<noteq> [] \<Longrightarrow> \<forall>w \<in> set ws. c \<notin> set w \<Longrightarrow> split_sep c (sep_join [c] ws) = ws"
proof (induction ws rule: induct_list012)
  case 1 then show ?case by simp
next
  case (2 x) then show ?case by (simp add: split_sep_no_sep)
next
  case (3 x y ys)
  then have "split_sep c (sep_join [c] (y # ys)) = y # ys" by simp
  moreover have "split_sep c x = [x]" using 3 by (simp add: split_sep_no_sep)
  ultimately show ?case by (simp add: split_sep_append_sep)
qed

lemma filter_split_join:
  assumes "\<forall>w \<in> set ws. c \<notin> set w \<and> w \<noteq> []"
  shows "filter (\<lambda>x. x \<noteq> []) (split_sep c (replicate k c @ sep_join [c] ws)) = ws"
proof (induction k)
  case 0
  show ?case
  proof (cases "ws = []")
    case True then show ?thesis by simp
  next
    case False
    with assms have "split_sep c (sep_join [c] ws) = ws" by (simp add: split_sep_join_roundtrip)
    with assms show ?thesis by (simp add: filter_id_conv)
  qed
next
  case (Suc k)
  then show ?case by simp
qed

lemma norm_step_invariant:
  assumes "\<forall>w \<in> set acc. CHR ''/'' \<notin> set w \<and> w \<noteq> []" "CHR ''/'' \<notin> set x"
  shows "\<forall>w \<in> set (norm_step k acc x). CHR ''/'' \<notin> set w \<and> w \<noteq> []"
  using assms by (auto simp: norm_step_def dest: in_set_butlastD)

lemma foldl_norm_step_invariant:
  "\<forall>w \<in> set acc. CHR ''/'' \<notin> set w \<and> w \<noteq> [] \<Longrightarrow> \<forall>x \<in> set xs. CHR ''/'' \<notin> set x \<Longrightarrow>
   \<forall>w \<in> set (foldl (norm_step k) acc xs). CHR ''/'' \<notin> set w \<and> w \<noteq> []"
proof (induction xs arbitrary: acc)
  case Nil
  then show ?case by simp
next
  case (Cons x xs)
  from Cons.prems(2) have x: "CHR ''/'' \<notin> set x" and xs: "\<forall>x \<in> set xs. CHR ''/'' \<notin> set x"
    by simp_all
  have step: "\<forall>w \<in> set (norm_step k acc x). CHR ''/'' \<notin> set w \<and> w \<noteq> []"
    using Cons.prems(1) x by (rule norm_step_invariant)
  have "foldl (norm_step k) acc (x # xs) = foldl (norm_step k) (norm_step k acc x) xs" by simp
  with Cons.IH [OF step xs] show ?case by (simp only:)
qed

lemma norm_step_absolute: "0 < k \<Longrightarrow> norm_step k = norm_step 1"
  by (auto simp: norm_step_def fun_eq_iff)

lemma initial_slashes_of_isabs: "isabs q \<Longrightarrow> 0 < initial_slashes_of q"
  by (simp add: isabs_def initial_slashes_of_def)

lemma normpath_absolute:
  assumes "isabs q"
  shows "filter (\<lambda>x. x \<noteq> []) (split_sep CHR ''/'' (normpath q)) = components q"
proof -
  let ?k = "initial_slashes_of q"
  from assms have k: "0 < ?k" by (rule initial_slashes_of_isabs)
  from assms have ne: "q \<noteq> []" by (auto simp: isabs_def startswith_def)
  have inv: "\<forall>w \<in> set (components q). CHR ''/'' \<notin> set w \<and> w \<noteq> []"
    unfolding components_def
    by (rule foldl_norm_step_invariant) (auto dest: split_sep_parts_free)
  from k have "replicate ?k CHR ''/'' @ sep_join ''/'' (components q) \<noteq> []" by simp
  moreover from k have "norm_step ?k = norm_step 1" by (rule norm_step_absolute)
  ultimately have "normpath q = replicate ?k CHR ''/'' @ sep_join ''/'' (components q)"
    using ne by (simp add: normpath_def Let_def components_def)
  with filter_split_join [OF inv] show ?thesis by simp
qed


lemma descend_append: "descend q names = q @ concat (map (\<lambda>n. ''/'' @ n) names)"
  unfolding descend_def by (induction names arbitrary: q) simp_all

lemma isabs_append: "q \<noteq> [] \<Longrightarrow> isabs (q @ r) = isabs q"
  by (cases q) (simp_all add: isabs_def startswith_def)

lemma join2_append:
  "q \<noteq> [] \<Longrightarrow> \<not> isabs q \<Longrightarrow> join2 cwd (q @ r) = join2 cwd q @ r"
  by (cases q) (simp_all add: join2_def isabs_def startswith_def)

lemma absolute_of_descend:
  "base_path \<noteq> [] \<Longrightarrow> absolute_of cwd (descend base_path names) = descend (absolute_of cwd base_path) names"
  by (simp add: absolute_of_def descend_append isabs_append join_def join2_append)

lemma isabs_absolute_of: "isabs cwd \<Longrightarrow> isabs (absolute_of cwd path)"
  by (cases cwd) (auto simp: absolute_of_def isabs_def join_def join2_def startswith_def)

lemma norm_step_proper: "proper_name n \<Longrightarrow> norm_step k acc n = acc @ [n]"
  by (simp add: norm_step_def proper_name_def)

lemma foldl_norm_step_proper:
  "\<forall>n \<in> set names. proper_name n \<Longrightarrow> foldl (norm_step k) acc names = acc @ names"
proof (induction names arbitrary: acc)
  case Nil
  then show ?case by simp
next
  case (Cons n names)
  from Cons.prems have n: "proper_name n" and rest: "\<forall>n \<in> set names. proper_name n" by simp_all
  from Cons.IH [OF rest, of "acc @ [n]"] n show ?case by (simp add: norm_step_proper)
qed

lemma components_descend:
  assumes "\<forall>n \<in> set names. proper_name n"
  shows "components (descend q names) = components q @ names"
proof -
  from assms have "\<forall>n \<in> set names. CHR ''/'' \<notin> set n" by (simp add: proper_name_def)
  then have "split_sep CHR ''/'' (descend q names) = split_sep CHR ''/'' q @ names"
    by (rule split_sep_descend)
  with foldl_norm_step_proper [OF assms] show ?thesis by (simp add: components_def)
qed

lemma path_list_absolute:
  "isabs cwd \<Longrightarrow> filter (\<lambda>x. x \<noteq> []) (split_sep CHR ''/'' (abspath cwd path)) = components (absolute_of cwd path)"
  using normpath_absolute [OF isabs_absolute_of, of cwd path] by (simp add: abspath_def absolute_of_def)

lemma commonprefix_append: "commonprefix xs (xs @ ys) = xs"
  by (induction xs) simp_all

lemma relpath_descend:
  assumes "isabs cwd" "base_path \<noteq> []" "\<forall>n \<in> set names. proper_name n"
  shows "relpath cwd (descend base_path names) base_path =
           (case names of [] \<Rightarrow> Inr ''.'' | a # p \<Rightarrow> Inr (join a p))"
proof -
  let ?S = "components (absolute_of cwd base_path)"
  have start: "filter (\<lambda>x. x \<noteq> []) (split_sep CHR ''/'' (abspath cwd base_path)) = ?S"
    using assms(1) by (rule path_list_absolute)
  have "filter (\<lambda>x. x \<noteq> []) (split_sep CHR ''/'' (abspath cwd (descend base_path names)))
        = components (absolute_of cwd (descend base_path names))"
    using assms(1) by (rule path_list_absolute)
  also have "\<dots> = ?S @ names"
    using assms(2,3) by (simp add: absolute_of_descend components_descend)
  finally have path: "filter (\<lambda>x. x \<noteq> []) (split_sep CHR ''/'' (abspath cwd (descend base_path names)))
        = ?S @ names" .
  from assms(2) have "descend base_path names \<noteq> []" by (simp add: descend_append)
  then show ?thesis
    by (simp add: relpath_def Let_def start path commonprefix_append)
qed

lemma endswith_slash: "endswith s ''/'' = (s \<noteq> [] \<and> last s = CHR ''/'')"
proof (cases s rule: rev_cases)
  case Nil
  then show ?thesis by (simp add: endswith_def)
next
  case (snoc ys y)
  then show ?thesis by (auto simp: endswith_def)
qed

lemma proper_name_join2:
  assumes "acc \<noteq> []" "last acc \<noteq> CHR ''/''" "proper_name n"
  shows "join2 acc n = acc @ ''/'' @ n"
proof -
  from assms(3) obtain c cs where n: "n = c # cs" and "c \<noteq> CHR ''/''"
    by (cases n) (auto simp: proper_name_def)
  then have "\<not> startswith n ''/''" by (simp add: startswith_def)
  with assms(1,2) show ?thesis by (simp add: join2_def endswith_slash)
qed

lemma proper_name_last: "proper_name n \<Longrightarrow> last (acc @ ''/'' @ n) \<noteq> CHR ''/''"
proof -
  assume "proper_name n"
  then have "n \<noteq> []" and "CHR ''/'' \<notin> set n" by (simp_all add: proper_name_def)
  from \<open>n \<noteq> []\<close> have "last (acc @ ''/'' @ n) = last n" by simp
  moreover from \<open>n \<noteq> []\<close> have "last n \<in> set n" by (rule last_in_set)
  ultimately show ?thesis using \<open>CHR ''/'' \<notin> set n\<close> by auto
qed

lemma foldl_join2_proper:
  "acc \<noteq> [] \<Longrightarrow> last acc \<noteq> CHR ''/'' \<Longrightarrow> \<forall>n \<in> set p. proper_name n \<Longrightarrow>
   foldl join2 acc p = acc @ concat (map (\<lambda>n. ''/'' @ n) p)"
proof (induction p arbitrary: acc)
  case Nil
  then show ?case by simp
next
  case (Cons n p)
  from Cons.prems(3) have n: "proper_name n" and rest: "\<forall>n \<in> set p. proper_name n" by simp_all
  have step: "join2 acc n = acc @ ''/'' @ n"
    using Cons.prems(1,2) n by (rule proper_name_join2)
  have ne: "acc @ ''/'' @ n \<noteq> []" by simp
  have "foldl join2 (acc @ ''/'' @ n) p = (acc @ ''/'' @ n) @ concat (map (\<lambda>n. ''/'' @ n) p)"
    using ne proper_name_last [OF n] rest by (rule Cons.IH)
  with step show ?case by simp
qed

lemma sep_join_slash: "sep_join ''/'' (a # p) = a @ concat (map (\<lambda>n. ''/'' @ n) p)"
  by (induction p arbitrary: a) simp_all

lemma join_proper:
  assumes "proper_name a" "\<forall>n \<in> set p. proper_name n"
  shows "join a p = sep_join ''/'' (a # p)"
proof -
  from assms(1) have "a \<noteq> []" and "last a \<noteq> CHR ''/''"
    by (auto simp: proper_name_def dest: last_in_set)
  then have "foldl join2 a p = a @ concat (map (\<lambda>n. ''/'' @ n) p)"
    using assms(2) by (rule foldl_join2_proper)
  then show ?thesis by (simp add: join_def sep_join_slash)
qed

lemma replace_is_dot: "replace (CHR 0x5C) CHR ''/'' s = ''.'' \<longleftrightarrow> s = ''.''"
  by (cases s) (auto simp: replace_def split: if_splits)

lemma sep_join_not_dot:
  assumes "proper_name a" "\<forall>n \<in> set p. proper_name n"
  shows "sep_join ''/'' (a # p) \<noteq> ''.''"
proof (cases p)
  case Nil
  with assms(1) show ?thesis by (simp add: proper_name_def)
next
  case (Cons b q)
  from assms(1) obtain c cs where "a = c # cs" by (cases a) (auto simp: proper_name_def)
  with Cons show ?thesis by (simp add: sep_join_slash)
qed

lemma folder_label_descend:
  assumes "isabs cwd" "base_path \<noteq> []" "\<forall>n \<in> set names. proper_name n"
  shows "folder_label cwd (descend base_path names) base_path =
           Inr (if names = [] then ''/''
                else ''/'' @ replace (CHR 0x5C) CHR ''/'' (sep_join ''/'' names))"
proof (cases names)
  case Nil
  with relpath_descend [OF assms] show ?thesis by (simp add: folder_label_def replace_def)
next
  case (Cons a p)
  with assms(3) have a: "proper_name a" and p: "\<forall>n \<in> set p. proper_name n" by simp_all
  from relpath_descend [OF assms] Cons
  have "relpath cwd (descend base_path names) base_path = Inr (sep_join ''/'' (a # p))"
    by (simp add: join_proper [OF a p])
  with Cons sep_join_not_dot [OF a p] show ?thesis
    by (simp add: folder_label_def Let_def replace_is_dot)
qed

subsection \<open>The walk computes the readings of the tree\<close>

lemma gauge_set_all_append:
  "gauge_set_all (rs @ rs') samples = gauge_set_all rs' (gauge_set_all rs samples)"
  by (simp add: gauge_set_all_def)

lemma after_walk_nil: "after_walk fx [] [] = fx"
  by (simp add: after_walk_def gauge_set_all_def)

lemma after_walk_after_walk:
  "after_walk (after_walk fx rs logs) rs' logs' = after_walk fx (rs @ rs') (logs @ logs')"
  by (simp add: after_walk_def gauge_set_all_append)

lemma folder_label_nonempty:
  "path \<noteq> [] \<Longrightarrow> folder_label cwd path base_path = Inr (label_of cwd path base_path)"
  by (simp add: folder_label_def label_of_def relpath_def Let_def split: list.splits)

lemma readings_simps:
  "readings cwd base_path path (File n) = []"
  "readings cwd base_path path Unlistable = []"
  "readings cwd base_path path (Dir children) =
     concat (map (\<lambda>(name, child). readings cwd base_path (path @ ''/'' @ name) child) children)
     @ [(label_of cwd path base_path, sum_list (files_of (Dir children)))]"
  by (simp_all add: readings_def map_concat comp_def case_prod_unfold)

lemma walk_refines:
  "path \<noteq> [] \<Longrightarrow> represents env path t \<Longrightarrow> nesting t \<le> depth \<Longrightarrow>
     list_dirs_recursive depth env path fx base_path =
       Inr (sum_list (files_of t),
            after_walk fx (readings (getcwd env) base_path path t) (records (getcwd env) base_path path t))"
  and loop_refines:
  "represents_entries env path statuses children \<Longrightarrow>
     foldr (\<lambda>(name, child). max (nesting child)) children 0 \<le> depth \<Longrightarrow>
     for_statuses depth env path base_path statuses total_size fx =
       Inr (total_size + sum_list (files_of (Dir children)),
            after_walk fx
              (concat (map (\<lambda>(name, child). readings (getcwd env) base_path (path @ ''/'' @ name) child) children))
              (concat (map (\<lambda>(name, child). records (getcwd env) base_path (path @ ''/'' @ name) child) children)))"
proof (induction env path t and env path statuses children
    arbitrary: depth fx and depth fx total_size rule: represents_represents_entries.induct)
  case (1 env path n)
  then show ?case by simp
next
  case (2 env path)
  then obtain d where "depth = Suc d" by (cases depth) auto
  with 2 show ?case by (simp add: after_walk_def gauge_set_all_def readings_simps)
next
  case (3 env path children)
  then obtain d where d: "depth = Suc d" by (cases depth) auto
  from 3 obtain statuses where sts: "client_list env path = Some statuses"
    and ents: "represents_entries env path statuses children"
    by (auto split: option.splits)
  from 3 d have le: "foldr (\<lambda>(name, child). max (nesting child)) children 0 \<le> d" by simp
  show ?case
    using "3.IH" [OF sts ents le] sts d "3.prems"(1)
    by (simp add: folder_label_nonempty after_walk_def gauge_set_all_def readings_simps)
next
  case (4 env path)
  then show ?case by (simp add: after_walk_nil)
next
  case (5 env path name item statuses name' child children)
  from "5.prems" have nm: "name' = name"
    and rest: "represents_entries env path statuses children"
    and le_child: "nesting child \<le> depth"
    and le_rest: "foldr (\<lambda>(name, child). max (nesting child)) children 0 \<le> depth"
    by simp_all
  note tail = "5.IH"(3) [OF rest le_rest]
  show ?case
  proof (cases child)
    case (File n)
    with "5.prems" have "item_type item \<noteq> ''DIRECTORY''" and "item_length item = n" by simp_all
    then show ?thesis
      using tail File by (simp add: readings_simps)
  next
    case Unlistable
    with "5.prems" have dir: "item_type item = ''DIRECTORY''"
      and rep: "represents env (path @ ''/'' @ name) child" by simp_all
    have "path @ ''/'' @ name \<noteq> []" by simp
    from "5.IH"(1) [OF Unlistable this rep le_child] dir tail show ?thesis
      by (simp add: nm after_walk_after_walk)
  next
    case (Dir cs)
    with "5.prems" have dir: "item_type item = ''DIRECTORY''"
      and rep: "represents env (path @ ''/'' @ name) child" by simp_all
    have "path @ ''/'' @ name \<noteq> []" by simp
    from "5.IH"(2) [OF Dir this rep le_child] dir tail show ?thesis
      by (simp add: nm after_walk_after_walk)
  qed
qed simp_all

subsection \<open>The gauge after a list of samples\<close>

lemma bit_length_le: "bit_length n \<le> k \<longleftrightarrow> n < 2 ^ k"
proof (induction n arbitrary: k rule: bit_length.induct)
  case (1 n)
  show ?case
  proof (cases "n = 0")
    case True
    then show ?thesis by (simp add: bit_length.simps)
  next
    case False
    show ?thesis
    proof (cases k)
      case 0
      with False show ?thesis by (simp add: bit_length.simps [of n])
    next
      case (Suc j)
      from False have "bit_length n = Suc (bit_length (n div 2))" by (simp add: bit_length.simps [of n])
      moreover from 1 [OF False, of j] have "bit_length (n div 2) \<le> j \<longleftrightarrow> n div 2 < 2 ^ j" .
      moreover have "n div 2 < 2 ^ j \<longleftrightarrow> n < 2 ^ Suc j" by auto
      ultimately show ?thesis by (simp add: Suc)
    qed
  qed
qed

lemma bit_length_eq: "2 ^ k \<le> n \<Longrightarrow> n < 2 ^ Suc k \<Longrightarrow> bit_length n = Suc k"
proof -
  assume lo: "2 ^ k \<le> n" and hi: "n < 2 ^ Suc k"
  from hi have "bit_length n \<le> Suc k" by (simp only: bit_length_le)
  moreover from lo have "\<not> bit_length n \<le> k" by (simp add: bit_length_le)
  ultimately show ?thesis by simp
qed

lemma py_float_exact: "\<bar>v\<bar> < 2 ^ 53 \<Longrightarrow> py_float v = v"
proof -
  assume "\<bar>v\<bar> < 2 ^ 53"
  then have "nat \<bar>v\<bar> < 2 ^ 53" by (simp add: nat_less_iff)
  then have "bit_length (nat \<bar>v\<bar>) \<le> 53" by (simp only: bit_length_le)
  then have "bit_length (nat \<bar>v\<bar>) - 53 = 0" by simp
  then show ?thesis by (simp add: py_float_def Let_def mult_sgn_abs)
qed

lemma py_float_below: "\<bar>v\<bar> < 9007199254740992 \<Longrightarrow> py_float v = v"
  by (rule py_float_exact) simp

lemma py_float_2_53_1: "py_float 9007199254740993 = 9007199254740992"
proof -
  have "bit_length 9007199254740993 = Suc 53"
    by (rule bit_length_eq) simp_all
  then show ?thesis by (simp add: py_float_def Let_def)
qed

lemma map_of_gauge_set: "map_of (gauge_set l v samples) = (map_of samples)(l \<mapsto> py_float v)"
  by (induction samples) (auto simp: fun_eq_iff)

lemma map_of_gauge_set_all:
  "map_of (gauge_set_all rs samples)
     = map_of samples ++ map_of (rev (map (\<lambda>(l, v). (l, py_float v)) rs))"
proof (induction rs arbitrary: samples)
  case Nil
  then show ?case by (simp add: gauge_set_all_def)
next
  case (Cons r rs)
  obtain l v where r: "r = (l, v)" by (cases r)
  have "gauge_set_all (r # rs) samples = gauge_set_all rs (gauge_set l v samples)"
    by (simp add: gauge_set_all_def r)
  also have "map_of \<dots> = map_of (gauge_set l v samples)
                             ++ map_of (rev (map (\<lambda>(l, v). (l, py_float v)) rs))"
    by (rule Cons.IH)
  also have "\<dots> = (map_of samples)(l \<mapsto> py_float v)
                    ++ map_of (rev (map (\<lambda>(l, v). (l, py_float v)) rs))"
    by (simp only: map_of_gauge_set)
  also have "\<dots> = map_of samples ++ map_of (rev (map (\<lambda>(l, v). (l, py_float v)) (r # rs)))"
    by (auto simp: r fun_eq_iff map_add_def split: option.splits)
  finally show ?case .
qed

lemma map_of_gauge_set_all_later:
  assumes "l \<notin> fst ` set later"
  shows "map_of (gauge_set_all (earlier @ (l, v) # later) samples) l = Some (py_float v)"
proof -
  have "fst ` set (rev (map (\<lambda>(l, v). (l, py_float v)) later)) = fst ` set later"
    by (force simp: image_iff)
  with assms have "map_of (rev (map (\<lambda>(l, v). (l, py_float v)) later)) l = None"
    by (simp only: map_of_eq_None_iff not_False_eq_True)
  then show ?thesis by (simp add: map_of_gauge_set_all map_add_def)
qed


lemma nested_represents: "represents nested_env ''/data'' nested_tree"
  by (simp add: nested_env_def env_of_def nested_table_def nested_tree_def dir_entry_def file_entry_def)

lemma label_of_descend:
  assumes "isabs cwd" "base_path \<noteq> []" "\<forall>n \<in> set names. proper_name n"
  shows "label_of cwd (descend base_path names) base_path =
           (if names = [] then ''/''
            else ''/'' @ replace (CHR 0x5C) CHR ''/'' (sep_join ''/'' names))"
  using folder_label_descend [OF assms] by (simp add: label_of_def)

lemma scenario_readings_of_tree:
  assumes "isabs cwd" "start \<noteq> []"
  shows "readings cwd start start scenario_tree = [(''/a/b'', 50), (''/a'', 150), (''/'', 160)]"
proof -
  have ab: "label_of cwd (descend start [''a'', ''b'']) start = ''/a/b''"
    using label_of_descend [OF assms, of "[''a'', ''b'']"] by (simp add: proper_name_def replace_def)
  have a: "label_of cwd (descend start [''a'']) start = ''/a''"
    using label_of_descend [OF assms, of "[''a'']"] by (simp add: proper_name_def replace_def)
  have top: "label_of cwd (descend start []) start = ''/''"
    using label_of_descend [OF assms, of "[]"] by simp
  from ab a top show ?thesis
    by (simp add: readings_def scenario_tree_def descend_def)
qed

lemma scenario_valid: "valid_folders scenario_env ''/vol''
    [dir_entry ''2024-01-01'', dir_entry ''2024-02-01'', dir_entry ''2024-03-01''] = [''2024-02-01'']"
  by (simp add: valid_folders_def has_merge_done_def scenario_env_def env_of_def
      scenario_table_def dir_entry_def file_entry_def)

lemma scenario_listed: "client_list scenario_env ''/vol''
      = Some [dir_entry ''2024-01-01'', dir_entry ''2024-02-01'', dir_entry ''2024-03-01'']"
  by (simp add: scenario_env_def env_of_def scenario_table_def)

lemma scenario_represents:
  "represents scenario_env ''/vol/2024-02-01/barrels/current'' scenario_tree"
  by (simp add: scenario_env_def env_of_def scenario_table_def scenario_tree_def
      dir_entry_def file_entry_def)

subsection \<open>The selection\<close>

lemma sorted_le_last: "sorted ys \<Longrightarrow> y \<in> set ys \<Longrightarrow> y \<le> last ys"
  by (induction ys rule: rev_induct) (auto simp: sorted_append)

lemma last_sort_Max: "xs \<noteq> [] \<Longrightarrow> last (sort xs) = Max (set xs)"
proof -
  assume ne: "xs \<noteq> []"
  then have ne': "sort xs \<noteq> []" by (metis length_0_conv length_sort)
  have "Max (set (sort xs)) = last (sort xs)"
  proof (rule Max_eqI)
    show "finite (set (sort xs))" by simp
    show "last (sort xs) \<in> set (sort xs)" using ne' by (rule last_in_set)
    fix y assume "y \<in> set (sort xs)"
    with sorted_sort [of xs] show "y \<le> last (sort xs)" by (rule sorted_le_last)
  qed
  then show ?thesis by simp
qed

lemma set_valid_folders:
  "set (valid_folders env root_path statuses) =
     {name. \<exists>item control. (name, item) \<in> set statuses \<and> item_type item = ''DIRECTORY''
        \<and> client_list env (root_path @ ''/'' @ name @ ''/control'') = Some control
        \<and> ''merge.done'' \<in> fst ` set control}"
  by (auto simp: valid_folders_def has_merge_done_def list_ex_iff image_iff split: option.splits)
     force+

subsection \<open>The loop over a listing, the effects of a walk, the run on the scenario\<close>

lemma for_statuses_append:
  "for_statuses depth env path base_path (before @ rest) total_size fx =
     (case for_statuses depth env path base_path before total_size fx of
        Inl e \<Rightarrow> Inl e
      | Inr (total1, fx1) \<Rightarrow> for_statuses depth env path base_path rest total1 fx1)"
proof (induction before arbitrary: total_size fx)
  case Nil
  then show ?case by simp
next
  case (Cons entry before)
  obtain name item where entry: "entry = (name, item)" by (cases entry)
  show ?case
    by (simp add: entry Cons.IH Let_def split: sum.splits)
qed

lemma logged_after_walk: "logged (after_walk fx rs logs) = logged fx @ logs"
  by (simp add: after_walk_def)

lemma samples_after_walk: "file_size_metric (after_walk fx rs logs) = gauge_set_all rs (file_size_metric fx)"
  by (simp add: after_walk_def)

lemma scenario_records:
  assumes "isabs cwd" "start \<noteq> []"
  shows "records cwd start start scenario_tree
           = [Info_folder ''/a/b'', Info_size 50, Info_folder ''/a'', Info_size 150,
              Info_folder ''/'', Info_size 160]"
proof -
  have ab: "label_of cwd (descend start [''a'', ''b'']) start = ''/a/b''"
    using label_of_descend [OF assms, of "[''a'', ''b'']"] by (simp add: proper_name_def replace_def)
  have a: "label_of cwd (descend start [''a'']) start = ''/a''"
    using label_of_descend [OF assms, of "[''a'']"] by (simp add: proper_name_def replace_def)
  have top: "label_of cwd (descend start []) start = ''/''"
    using label_of_descend [OF assms, of "[]"] by simp
  from ab a top show ?thesis
    by (simp add: scenario_tree_def descend_def)
qed

lemma scenario_run:
  "process_latest_valid_folder 3 scenario_env ''/vol''
     = Inr ((), \<lparr>file_size_metric = [(''/a/b'', 50), (''/a'', 150), (''/'', 160)],
                logged = [Info_only_latest ''/vol/2024-02-01/barrels/current'',
                          Info_folder ''/a/b'', Info_size 50, Info_folder ''/a'', Info_size 150,
                          Info_folder ''/'', Info_size 160, Info_pushed],
                pushes = [[(''/a/b'', 50), (''/a'', 150), (''/'', 160)]],
                registry_built = True\<rparr>)"
proof -
  let ?start = "''/vol/2024-02-01/barrels/current''"
  let ?fx = "\<lparr>file_size_metric = [], logged = [Info_only_latest ?start]\<rparr>"
  have cwd: "isabs (getcwd scenario_env)"
    by (simp add: scenario_env_def env_of_def isabs_def startswith_def)
  have ne: "?start \<noteq> []" by simp
  have deep: "nesting scenario_tree \<le> 3" by (simp add: scenario_tree_def)
  have walk: "list_dirs_recursive 3 scenario_env ?start ?fx ?start
                = Inr (sum_list (files_of scenario_tree),
                       after_walk ?fx (readings (getcwd scenario_env) ?start ?start scenario_tree)
                         (records (getcwd scenario_env) ?start ?start scenario_tree))"
    using ne scenario_represents deep by (rule walk_refines)
  have pushed: "\<And>samples. push_to_gateway scenario_env samples"
    by (simp add: scenario_env_def env_of_def)
  show ?thesis
    using scenario_listed walk pushed
    by (simp add: process_latest_valid_folder_def Let_def scenario_valid after_walk_def
        scenario_readings_of_tree [OF cwd ne] scenario_records [OF cwd ne] gauge_set_all_def
        py_float_below)
qed

subsection \<open>Listings in another order\<close>

lemma represents_entries_list_all2:
  "represents_entries env path statuses children = list_all2 (entry_rel env path) statuses children"
proof (induction statuses arbitrary: children)
  case Nil
  then show ?case by (cases children) simp_all
next
  case (Cons entry statuses)
  obtain name item where entry: "entry = (name, item)" by (cases entry)
  show ?case
  proof (cases children)
    case Nil
    then show ?thesis by (simp add: entry)
  next
    case (Cons node rest)
    obtain name' child where node: "node = (name', child)" by (cases node)
    show ?thesis
      by (cases child) (simp_all add: Cons entry node Cons.IH entry_rel_def)
  qed
qed

lemma list_all2_pointwise_choice:
  assumes "list_all2 P xs ys"
      and "\<And>x y. x \<in> set xs \<Longrightarrow> y \<in> set ys \<Longrightarrow> P x y \<Longrightarrow> \<exists>z. Q x z \<and> S y z"
  shows "\<exists>zs. list_all2 Q xs zs \<and> list_all2 S ys zs"
  using assms
proof (induction rule: list_all2_induct)
  case Nil
  then show ?case by simp
next
  case (Cons x xs y ys)
  from Cons.prems [of x y] Cons.hyps(1) obtain z where z: "Q x z" "S y z" by auto
  have "\<exists>zs. list_all2 Q xs zs \<and> list_all2 S ys zs"
  proof (rule Cons.IH)
    fix x' y' assume "x' \<in> set xs" "y' \<in> set ys" "P x' y'"
    then show "\<exists>z. Q x' z \<and> S y' z" using Cons.prems [of x' y'] by simp
  qed
  then obtain zs where "list_all2 Q xs zs" "list_all2 S ys zs" by blast
  with z have "list_all2 Q (x # xs) (z # zs) \<and> list_all2 S (y # ys) (z # zs)" by simp
  then show ?case by blast
qed

lemma reordered_represents:
  assumes "reordered env env'"
  shows "represents env path t \<Longrightarrow> \<exists>t'. represents env' path t' \<and> tree_perm t t'"
proof (induction t arbitrary: path)
  case (File n)
  then show ?case by simp
next
  case Unlistable
  then have "client_list env path = None" by simp
  with assms have "client_list env' path = None"
    by (auto simp: reordered_def dest!: spec [of _ path])
  then have "represents env' path Unlistable" by simp
  then show ?case using perm_Unlistable by blast
next
  case (Dir cs)
  from Dir.prems obtain statuses where listed: "client_list env path = Some statuses"
    and ents: "list_all2 (entry_rel env path) statuses cs"
    by (auto simp: represents_entries_list_all2 split: option.splits)
  from assms listed obtain statuses' where listed': "client_list env' path = Some statuses'"
    and perm: "mset statuses' = mset statuses"
    by (auto simp: reordered_def option_rel_Some1 dest!: spec [of _ path])
  from list_all2_reorder_left_invariance [OF ents perm]
  obtain cs1 where ents1: "list_all2 (entry_rel env path) statuses' cs1" and cs1: "mset cs1 = mset cs"
    by blast
  have "\<exists>cs'. list_all2 (entry_rel env' path) statuses' cs' \<and> list_all2 (rel_prod (=) tree_perm) cs1 cs'"
    using ents1
  proof (rule list_all2_pointwise_choice)
    fix entry node
    assume "node \<in> set cs1" and rel: "entry_rel env path entry node"
    with cs1 have mem: "node \<in> set cs" by (metis set_mset_mset)
    obtain name child where node: "node = (name, child)" by (cases node)
    show "\<exists>node'. entry_rel env' path entry node' \<and> rel_prod (=) tree_perm node node'"
    proof (cases child)
      case (File n)
      with rel node have "entry_rel env' path entry node" by (simp add: entry_rel_def)
      moreover have "rel_prod (=) tree_perm node node" using File node perm_File by simp
      ultimately show ?thesis by blast
    next
      case Unlistable
      with rel node have dir: "item_type (snd entry) = ''DIRECTORY''" and nm: "name = fst entry"
        and rep: "represents env (path @ ''/'' @ fst entry) child"
        by (simp_all add: entry_rel_def)
      from mem node have "child \<in> Basic_BNFs.snds node" by simp
      from Dir.IH [OF mem this rep] obtain t' where t': "represents env' (path @ ''/'' @ fst entry) t'"
        and p: "tree_perm child t'" by blast
      from t' dir nm have "entry_rel env' path entry (name, t')"
        by (cases t') (simp_all add: entry_rel_def)
      moreover from p node have "rel_prod (=) tree_perm node (name, t')" by simp
      ultimately show ?thesis by blast
    next
      case (Dir x3)
      with rel node have dir: "item_type (snd entry) = ''DIRECTORY''" and nm: "name = fst entry"
        and rep: "represents env (path @ ''/'' @ fst entry) child"
        by (simp_all add: entry_rel_def)
      from mem node have "child \<in> Basic_BNFs.snds node" by simp
      from Dir.IH [OF mem this rep] obtain t' where t': "represents env' (path @ ''/'' @ fst entry) t'"
        and p: "tree_perm child t'" by blast
      from t' dir nm have "entry_rel env' path entry (name, t')"
        by (cases t') (simp_all add: entry_rel_def)
      moreover from p node have "rel_prod (=) tree_perm node (name, t')" by simp
      ultimately show ?thesis by blast
    qed
  qed
  then obtain cs' where ents': "list_all2 (entry_rel env' path) statuses' cs'"
    and perms: "list_all2 (rel_prod (=) tree_perm) cs1 cs'" by blast
  from listed' ents' have "represents env' path (Dir cs')"
    by (simp add: represents_entries_list_all2)
  moreover from cs1 perms have "tree_perm (Dir cs) (Dir cs')" by (rule perm_Dir)
  ultimately show ?case by blast
qed

lemma mset_concat_map_perm:
  assumes "mset xs = mset ys"
  shows "mset (concat (map f xs)) = mset (concat (map f ys))"
proof -
  from assms have "mset (map (\<lambda>x. mset (f x)) xs) = mset (map (\<lambda>x. mset (f x)) ys)"
    by (metis mset_map)
  then have "sum_mset (mset (map (\<lambda>x. mset (f x)) xs)) = sum_mset (mset (map (\<lambda>x. mset (f x)) ys))"
    by (rule arg_cong)
  then have "sum_list (map (\<lambda>x. mset (f x)) xs) = sum_list (map (\<lambda>x. mset (f x)) ys)"
    by (simp only: sum_mset_sum_list)
  then show ?thesis by (simp add: mset_concat comp_def)
qed

lemma mset_concat_map_list_all2:
  "list_all2 (\<lambda>x y. mset (f x) = mset (g y)) xs ys \<Longrightarrow>
   mset (concat (map f xs)) = mset (concat (map g ys))"
  by (induction rule: list_all2_induct) simp_all

lemma tree_perm_files: "tree_perm t t' \<Longrightarrow> mset (files_of t') = mset (files_of t)"
proof (induction rule: tree_perm.induct)
  case (perm_Dir cs1 cs cs')
  from perm_Dir(2)
  have "list_all2 (\<lambda>x y. mset (files_of (snd x)) = mset (files_of (snd y))) cs1 cs'"
    by (rule list_all2_mono) auto
  then have "mset (concat (map (\<lambda>x. files_of (snd x)) cs1))
               = mset (concat (map (\<lambda>x. files_of (snd x)) cs'))"
    by (rule mset_concat_map_list_all2)
  moreover from perm_Dir(1)
  have "mset (concat (map (\<lambda>x. files_of (snd x)) cs1))
          = mset (concat (map (\<lambda>x. files_of (snd x)) cs))"
    by (rule mset_concat_map_perm)
  ultimately show ?case by (simp add: case_prod_unfold)
qed simp_all

lemma tree_perm_total: "tree_perm t t' \<Longrightarrow> sum_list (files_of t') = sum_list (files_of t)"
  using tree_perm_files [of t t'] by (metis sum_mset_sum_list)

lemma foldr_max_le:
  "foldr (\<lambda>x. max (f x)) xs (0 :: nat) \<le> d \<longleftrightarrow> (\<forall>x \<in> set xs. f x \<le> d)"
  by (induction xs) auto

lemma nesting_Dir_le:
  "nesting (Dir cs) \<le> d \<longleftrightarrow> (\<exists>d'. d = Suc d' \<and> (\<forall>x \<in> set cs. nesting (snd x) \<le> d'))"
proof (cases d)
  case 0
  then show ?thesis by simp
next
  case (Suc d')
  have "foldr (\<lambda>(name, child). max (nesting child)) cs 0 = foldr (\<lambda>x. max (nesting (snd x))) cs 0"
    by (simp add: case_prod_unfold)
  then show ?thesis by (simp add: Suc foldr_max_le)
qed

lemma list_all2_right_partner:
  "list_all2 R xs ys \<Longrightarrow> y \<in> set ys \<Longrightarrow> \<exists>x \<in> set xs. R x y"
  by (induction rule: list_all2_induct) auto

lemma tree_perm_nesting: "tree_perm t t' \<Longrightarrow> nesting t \<le> d \<Longrightarrow> nesting t' \<le> d"
proof (induction arbitrary: d rule: tree_perm.induct)
  case (perm_Dir cs1 cs cs')
  from perm_Dir.prems obtain d' where d: "d = Suc d'" and le: "\<forall>x \<in> set cs. nesting (snd x) \<le> d'"
    unfolding nesting_Dir_le by blast
  have "\<forall>y \<in> set cs'. nesting (snd y) \<le> d'"
  proof
    fix y assume "y \<in> set cs'"
    with perm_Dir(2) obtain x where x: "x \<in> set cs1"
      and r: "rel_prod (=) (\<lambda>c c'. tree_perm c c' \<and> (\<forall>d. nesting c \<le> d \<longrightarrow> nesting c' \<le> d)) x y"
      by (blast dest: list_all2_right_partner)
    from x perm_Dir(1) have "x \<in> set cs" by (metis set_mset_mset)
    with le have "nesting (snd x) \<le> d'" by simp
    with r show "nesting (snd y) \<le> d'" by (auto simp: rel_prod_sel)
  qed
  with d show ?case unfolding nesting_Dir_le by blast
qed simp_all

lemma tree_perm_readings:
  "tree_perm t t' \<Longrightarrow>
   \<forall>path. mset (readings cwd base_path path t') = mset (readings cwd base_path path t)"
proof (induction rule: tree_perm.induct)
  case (perm_Dir cs1 cs cs')
  show ?case
  proof
    fix path
    let ?f = "\<lambda>x. readings cwd base_path (path @ ''/'' @ fst x) (snd x)"
    from perm_Dir(2) have "list_all2 (\<lambda>x y. mset (?f x) = mset (?f y)) cs1 cs'"
      by (rule list_all2_mono) (auto simp: rel_prod_sel)
    then have "mset (concat (map ?f cs1)) = mset (concat (map ?f cs'))"
      by (rule mset_concat_map_list_all2)
    moreover from perm_Dir(1) have "mset (concat (map ?f cs1)) = mset (concat (map ?f cs))"
      by (rule mset_concat_map_perm)
    moreover
    from perm_Dir(2) have "list_all2 (rel_prod (=) tree_perm) cs1 cs'"
      by (rule list_all2_mono) (auto simp: rel_prod_sel)
    with perm_Dir(1) have "tree_perm (Dir cs) (Dir cs')" by (rule tree_perm.perm_Dir)
    then have "sum_list (files_of (Dir cs')) = sum_list (files_of (Dir cs))"
      by (rule tree_perm_total)
    ultimately show "mset (readings cwd base_path path (Dir cs'))
                       = mset (readings cwd base_path path (Dir cs))"
      by (simp only: readings_simps case_prod_unfold mset_append)
  qed
qed simp_all

lemma keys_gauge_set:
  "map fst (gauge_set l v samples)
     = (if l \<in> fst ` set samples then map fst samples else map fst samples @ [l])"
  by (induction l v samples rule: gauge_set.induct) (auto simp: image_iff)

lemma distinct_gauge_set:
  "distinct (map fst samples) \<Longrightarrow> distinct (map fst (gauge_set l v samples))"
  by (simp add: keys_gauge_set image_iff)

lemma distinct_gauge_set_all:
  "distinct (map fst samples) \<Longrightarrow> distinct (map fst (gauge_set_all rs samples))"
proof (induction rs arbitrary: samples)
  case Nil
  then show ?case by (simp add: gauge_set_all_def)
next
  case (Cons r rs)
  obtain l v where r: "r = (l, v)" by (cases r)
  have "gauge_set_all (r # rs) samples = gauge_set_all rs (gauge_set l v samples)"
    by (simp add: gauge_set_all_def r)
  moreover have "distinct (map fst (gauge_set_all rs (gauge_set l v samples)))"
    using Cons.prems by (intro Cons.IH distinct_gauge_set)
  ultimately show ?case by simp
qed

lemma gauge_set_all_perm:
  assumes "mset rs' = mset rs" "distinct (map fst rs)" "distinct (map fst samples)"
  shows "set (gauge_set_all rs' samples) = set (gauge_set_all rs samples)"
proof -
  from assms(1) have "mset (map fst rs') = mset (map fst rs)" by (metis mset_map)
  with assms(2) have d': "distinct (map fst rs')" by (metis mset_eq_imp_distinct_iff)
  let ?stored = "map (\<lambda>(l, v). (l, py_float v))"
  have keys: "\<And>xs. map fst (?stored xs) = map fst xs" by (simp add: case_prod_unfold)
  from assms(1) have "set rs' = set rs" by (metis set_mset_mset)
  then have "set (rev (?stored rs')) = set (rev (?stored rs))" by simp
  moreover have "distinct (map fst (rev (?stored rs')))" "distinct (map fst (rev (?stored rs)))"
    using d' assms(2) by (simp_all only: rev_map [symmetric] keys distinct_rev)
  ultimately have "map_of (rev (?stored rs')) = map_of (rev (?stored rs))"
    by (simp only: map_of_inject_set)
  then have "map_of (gauge_set_all rs' samples) = map_of (gauge_set_all rs samples)"
    by (simp only: map_of_gauge_set_all)
  moreover have "distinct (map fst (gauge_set_all rs' samples))"
    "distinct (map fst (gauge_set_all rs samples))"
    using assms(3) by (simp_all add: distinct_gauge_set_all)
  ultimately show ?thesis by (simp add: map_of_inject_set)
qed

lemma clash_reordered: "reordered clash_env clash_env'"
  by (simp add: reordered_def clash_env_def clash_env'_def env_of_def)

lemma nested_reordered: "reordered nested_env nested_env'"
  by (simp add: reordered_def nested_env_def nested_env'_def env_of_def nested_table_def)


lemma clash_represents: "represents clash_env ''/data'' clash_tree"
  by (simp add: clash_env_def env_of_def clash_tree_def clash_name_def dir_entry_def file_entry_def)

lemma clash_walk:
  "list_dirs_recursive 3 clash_env ''/data'' \<lparr>file_size_metric = [], logged = []\<rparr> ''/data''
       = Inr (3, \<lparr>file_size_metric = [(''/a/b'', 2), (''/a'', 1), (''/'', 3)],
                  logged = [Info_folder ''/a/b'', Info_size 1, Info_folder ''/a'', Info_size 1,
                            Info_folder ''/a/b'', Info_size 2, Info_folder ''/'', Info_size 3]\<rparr>)"
proof -
  have l1: "folder_label ''/'' ''/data/a/b'' ''/data'' = Inr ''/a/b''" by code_simp
  have l2: "folder_label ''/'' ''/data/a'' ''/data'' = Inr ''/a''" by code_simp
  have l3: "folder_label ''/'' (''/data/'' @ clash_name) ''/data'' = Inr ''/a/b''" by code_simp
  have l4: "folder_label ''/'' ''/data'' ''/data'' = Inr ''/''" by code_simp
  show ?thesis
    using l1 l2 l3 l4
    by (simp add: eval_nat_numeral clash_env_def env_of_def clash_name_def dir_entry_def
        file_entry_def py_float_below)
qed

lemma clash_walk':
  "list_dirs_recursive 3 clash_env' ''/data'' \<lparr>file_size_metric = [], logged = []\<rparr> ''/data''
       = Inr (3, \<lparr>file_size_metric = [(''/a/b'', 1), (''/a'', 1), (''/'', 3)],
                  logged = [Info_folder ''/a/b'', Info_size 2, Info_folder ''/a/b'', Info_size 1,
                            Info_folder ''/a'', Info_size 1, Info_folder ''/'', Info_size 3]\<rparr>)"
proof -
  have l1: "folder_label ''/'' ''/data/a/b'' ''/data'' = Inr ''/a/b''" by code_simp
  have l2: "folder_label ''/'' ''/data/a'' ''/data'' = Inr ''/a''" by code_simp
  have l3: "folder_label ''/'' (''/data/'' @ clash_name) ''/data'' = Inr ''/a/b''" by code_simp
  have l4: "folder_label ''/'' ''/data'' ''/data'' = Inr ''/''" by code_simp
  show ?thesis
    using l1 l2 l3 l4
    by (simp add: eval_nat_numeral clash_env'_def env_of_def clash_name_def dir_entry_def
        file_entry_def py_float_below)
qed

lemma large_walk:
  "list_dirs_recursive 1 large_env ''/data'' \<lparr>file_size_metric = [], logged = []\<rparr> ''/data''
     = Inr (9007199254740993,
            \<lparr>file_size_metric = [(''/'', 9007199254740992)],
             logged = [Info_folder ''/'', Info_size 9007199254740993]\<rparr>)"
proof -
  have l: "folder_label ''/'' ''/data'' ''/data'' = Inr ''/''" by code_simp
  show ?thesis
    using l by (simp add: large_env_def env_of_def file_entry_def py_float_2_53_1)
qed

subsection \<open>The partition selector\<close>

text \<open>
  Claim C7. For every candidate directory, a failure to list its \<^verbatim>\<open>control\<close> sub-path
  makes the candidate invalid: \<open>has_merge_done\<close> returns \<open>False\<close>. It raises nothing (its
  result has no error summand), and the selection loop goes on: the candidate is left out
  of \<open>valid_folders\<close> and the entries before and after it are judged as without it.
\<close>

theorem has_merge_done_unlistable_control:
  assumes "client_list env (root_path @ ''/'' @ name @ ''/control'') = None"
  shows "has_merge_done env (root_path @ ''/'' @ name) = False
       \<and> valid_folders env root_path (before @ (name, item) # after)
           = valid_folders env root_path before @ valid_folders env root_path after"
  using assms by (simp add: has_merge_done_def valid_folders_def)

theorem has_merge_done_unlistable_control_witness:
  "client_list scenario_env (''/vol'' @ ''/'' @ ''2024-01-01'' @ ''/control'') = None
   \<and> has_merge_done scenario_env (''/vol'' @ ''/'' @ ''2024-01-01'') = False
   \<and> valid_folders scenario_env ''/vol''
        ([] @ dir_entry ''2024-01-01'' # [dir_entry ''2024-02-01'', dir_entry ''2024-03-01''])
      = [''2024-02-01'']"
proof -
  have unlistable: "client_list scenario_env (''/vol'' @ ''/'' @ ''2024-01-01'' @ ''/control'') = None"
    by (simp add: scenario_env_def env_of_def scenario_table_def)
  have rest: "valid_folders scenario_env ''/vol'' [dir_entry ''2024-02-01'', dir_entry ''2024-03-01'']
      = [''2024-02-01'']"
    by (simp add: valid_folders_def has_merge_done_def scenario_env_def env_of_def
        scenario_table_def dir_entry_def file_entry_def)
  from has_merge_done_unlistable_control [OF unlistable, of "[]" "snd (dir_entry ''2024-01-01'')"
      "[dir_entry ''2024-02-01'', dir_entry ''2024-03-01'']"]
  show ?thesis using unlistable rest by (simp add: dir_entry_def valid_folders_def)
qed

subsection \<open>The recursive aggregator\<close>

text \<open>
  Claim C1, as stated: for every directory tree, the reading recorded for any successfully
  listed directory equals the sum of the byte lengths of all files in that directory's
  entire subtree. Two things stand against it. The gauge keeps one sample per label, and
  line 78 turns the backslashes of a name into slashes: in \<open>clash_env\<close> the listed folder
  \<^verbatim>\<open>/data/a/b\<close>, whose files sum to 1, gets the label \<^verbatim>\<open>/a/b\<close>, and so does
  the folder \<^verbatim>\<open>/data/a\b\<close>, walked later; the walk ends with \<^verbatim>\<open>/a/b\<close> = 2.
  And the gauge stores \<^verbatim>\<open>float(total_size)\<close>: for one file of \<open>2^53 + 1\<close> bytes the
  call returns 9007199254740993 and the reading of \<^verbatim>\<open>/\<close> is 9007199254740992.
\<close>

theorem reading_is_subtree_file_sum_counterexample:
  "represents clash_env ''/data'' clash_tree
   \<and> (''/data/a/b'', Dir [(''f'', File 1)]) \<in> set (folders_of ''/data'' clash_tree)
   \<and> sum_list (files_of (Dir [(''f'', File 1)])) = 1
   \<and> label_of (getcwd clash_env) ''/data/a/b'' ''/data'' = ''/a/b''
   \<and> list_dirs_recursive 3 clash_env ''/data'' \<lparr>file_size_metric = [], logged = []\<rparr> ''/data''
       = Inr (3, \<lparr>file_size_metric = [(''/a/b'', 2), (''/a'', 1), (''/'', 3)],
                  logged = [Info_folder ''/a/b'', Info_size 1, Info_folder ''/a'', Info_size 1,
                            Info_folder ''/a/b'', Info_size 2, Info_folder ''/'', Info_size 3]\<rparr>)
   \<and> represents large_env ''/data'' (Dir [(''f'', File 9007199254740993)])
   \<and> list_dirs_recursive 1 large_env ''/data'' \<lparr>file_size_metric = [], logged = []\<rparr> ''/data''
       = Inr (9007199254740993,
              \<lparr>file_size_metric = [(''/'', 9007199254740992)],
               logged = [Info_folder ''/'', Info_size 9007199254740993]\<rparr>)"
proof -
  have listed: "(''/data/a/b'', Dir [(''f'', File 1)]) \<in> set (folders_of ''/data'' clash_tree)"
    by (simp add: clash_tree_def)
  have cwd: "getcwd clash_env = ''/''" by (simp add: clash_env_def env_of_def)
  have label: "label_of ''/'' ''/data/a/b'' ''/data'' = ''/a/b''" by code_simp
  have large: "represents large_env ''/data'' (Dir [(''f'', File 9007199254740993)])"
    by (simp add: large_env_def env_of_def file_entry_def)
  from clash_represents listed label clash_walk large large_walk show ?thesis
    by (simp add: cwd)
qed

text \<open>
  Claim C1, amended. Let the listings of \<open>env\<close> at \<open>path\<close> report the folder
  \<open>Dir children\<close>, and let the interpreter allow the \<open>nesting\<close> of that tree. Then the call
  returns the sum of the lengths of all files of the tree, at any depth and also where
  intermediate folders hold no file; it sets, in post-order, one sample per listed folder of
  the tree: the folder's label with the sum of the lengths of all files below that folder,
  stored as \<^verbatim>\<open>float\<close>; on return the gauge holds the stored sum of \<open>path\<close> under the
  label of \<open>path\<close>; a listed folder's stored sum is still in the gauge on return unless a
  folder walked after it gets the same label. So where no two listed folders get the same
  label, the gauge holds on return, for every listed folder, its stored sum under its
  label, and that is the sum itself where the sum is below \<open>2^53\<close>.
\<close>

theorem reading_is_subtree_file_sum:
  assumes "path \<noteq> []"
      and "represents env path (Dir children)"
      and "nesting (Dir children) \<le> depth"
  shows "\<exists>fx1. list_dirs_recursive depth env path fx base_path
                 = Inr (sum_list (files_of (Dir children)), fx1)
           \<and> file_size_metric fx1
               = gauge_set_all
                   (map (\<lambda>(p, folder). (label_of (getcwd env) p base_path, sum_list (files_of folder)))
                        (folders_of path (Dir children)))
                   (file_size_metric fx)
           \<and> map_of (file_size_metric fx1) (label_of (getcwd env) path base_path)
               = Some (py_float (sum_list (files_of (Dir children))))
           \<and> (\<forall>earlier p folder later.
                 folders_of path (Dir children) = earlier @ (p, folder) # later \<longrightarrow>
                 label_of (getcwd env) p base_path
                   \<notin> (\<lambda>(p', folder'). label_of (getcwd env) p' base_path) ` set later \<longrightarrow>
                 map_of (file_size_metric fx1) (label_of (getcwd env) p base_path)
                   = Some (py_float (sum_list (files_of folder))))
           \<and> (distinct (map (\<lambda>(p, folder). label_of (getcwd env) p base_path)
                             (folders_of path (Dir children)))
                \<longrightarrow> (\<forall>(p, folder) \<in> set (folders_of path (Dir children)).
                       map_of (file_size_metric fx1) (label_of (getcwd env) p base_path)
                         = Some (py_float (sum_list (files_of folder)))
                       \<and> (\<bar>sum_list (files_of folder)\<bar> < 2 ^ 53 \<longrightarrow>
                            map_of (file_size_metric fx1) (label_of (getcwd env) p base_path)
                              = Some (sum_list (files_of folder)))))"
proof -
  let ?label = "\<lambda>p. label_of (getcwd env) p base_path"
  let ?sample = "\<lambda>(p, folder). (?label p, sum_list (files_of folder))"
  let ?folders = "folders_of path (Dir children)"
  let ?rs = "readings (getcwd env) base_path path (Dir children)"
  let ?fx1 = "after_walk fx ?rs (records (getcwd env) base_path path (Dir children))"
  have run: "list_dirs_recursive depth env path fx base_path
               = Inr (sum_list (files_of (Dir children)), ?fx1)"
    using assms by (rule walk_refines)
  have rs: "?rs = map ?sample ?folders" by (simp only: readings_def)
  have samples: "file_size_metric ?fx1 = gauge_set_all (map ?sample ?folders) (file_size_metric fx)"
    by (simp only: samples_after_walk rs)
  have later: "map_of (file_size_metric ?fx1) (?label p) = Some (py_float (sum_list (files_of folder)))"
    if split: "?folders = earlier @ (p, folder) # later"
      and fresh: "?label p \<notin> (\<lambda>(p', folder'). ?label p') ` set later"
    for earlier p folder later
  proof -
    have "fst ` set (map ?sample later) = (\<lambda>(p', folder'). ?label p') ` set later"
      by (force simp: image_iff)
    with fresh have "?label p \<notin> fst ` set (map ?sample later)" by simp
    then have "map_of (gauge_set_all
                   (map ?sample earlier @ (?label p, sum_list (files_of folder)) # map ?sample later)
                   (file_size_metric fx)) (?label p)
                 = Some (py_float (sum_list (files_of folder)))"
      by (rule map_of_gauge_set_all_later)
    moreover have "map ?sample ?folders
        = map ?sample earlier @ (?label p, sum_list (files_of folder)) # map ?sample later"
      by (simp only: split map_append list.map prod.case)
    ultimately show ?thesis by (simp only: samples)
  qed
  have own: "map_of (file_size_metric ?fx1) (?label path)
               = Some (py_float (sum_list (files_of (Dir children))))"
  proof (rule later)
    show "?folders = concat (map (\<lambda>(name, child). folders_of (path @ ''/'' @ name) child) children)
                       @ (path, Dir children) # []"
      by simp
    show "?label path \<notin> (\<lambda>(p', folder'). ?label p') ` set []" by simp
  qed
  have all: "map_of (file_size_metric ?fx1) (?label p) = Some (py_float (sum_list (files_of folder)))"
    if d: "distinct (map (\<lambda>(p, folder). ?label p) ?folders)" and mem: "(p, folder) \<in> set ?folders"
    for p folder
  proof -
    from split_list [OF mem]
    obtain earlier later where split: "?folders = earlier @ (p, folder) # later"
      by blast
    from d have "distinct (map (\<lambda>(p, folder). ?label p) (earlier @ (p, folder) # later))"
      by (simp only: split)
    then have "?label p \<notin> (\<lambda>(p', folder'). ?label p') ` set later" by auto
    with split show ?thesis by (rule later)
  qed
  have exact: "map_of (file_size_metric ?fx1) (?label p) = Some (sum_list (files_of folder))"
    if "distinct (map (\<lambda>(p, folder). ?label p) ?folders)" and "(p, folder) \<in> set ?folders"
      and "\<bar>sum_list (files_of folder)\<bar> < 2 ^ 53"
    for p folder
    using all [OF that(1,2)] py_float_exact [OF that(3)] by (simp only:)
  show ?thesis
  proof (intro exI [of _ ?fx1] conjI)
    show "list_dirs_recursive depth env path fx base_path
            = Inr (sum_list (files_of (Dir children)), ?fx1)"
      by (rule run)
    show "file_size_metric ?fx1 = gauge_set_all (map ?sample ?folders) (file_size_metric fx)"
      by (rule samples)
    show "map_of (file_size_metric ?fx1) (?label path)
            = Some (py_float (sum_list (files_of (Dir children))))"
      by (rule own)
    show "\<forall>earlier p folder later.
            ?folders = earlier @ (p, folder) # later \<longrightarrow>
            ?label p \<notin> (\<lambda>(p', folder'). ?label p') ` set later \<longrightarrow>
            map_of (file_size_metric ?fx1) (?label p) = Some (py_float (sum_list (files_of folder)))"
      using later by blast
    show "distinct (map (\<lambda>(p, folder). ?label p) ?folders)
            \<longrightarrow> (\<forall>(p, folder) \<in> set ?folders.
                   map_of (file_size_metric ?fx1) (?label p)
                     = Some (py_float (sum_list (files_of folder)))
                   \<and> (\<bar>sum_list (files_of folder)\<bar> < 2 ^ 53 \<longrightarrow>
                        map_of (file_size_metric ?fx1) (?label p)
                          = Some (sum_list (files_of folder))))"
      using all exact by blast
  qed
qed

theorem reading_is_subtree_file_sum_witness:
  "''/data'' \<noteq> []
   \<and> represents nested_env ''/data''
        (Dir [(''x'', Dir [(''y'', Dir [(''f'', File 7)])]), (''e'', Dir [])])
   \<and> nesting (Dir [(''x'', Dir [(''y'', Dir [(''f'', File 7)])]), (''e'', Dir [])]) \<le> 3
   \<and> folders_of ''/data'' (Dir [(''x'', Dir [(''y'', Dir [(''f'', File 7)])]), (''e'', Dir [])])
       = [(''/data/x/y'', Dir [(''f'', File 7)]), (''/data/x'', Dir [(''y'', Dir [(''f'', File 7)])]),
          (''/data/e'', Dir []),
          (''/data'', Dir [(''x'', Dir [(''y'', Dir [(''f'', File 7)])]), (''e'', Dir [])])]
   \<and> (\<exists>fx1. list_dirs_recursive 3 nested_env ''/data'' \<lparr>file_size_metric = [], logged = []\<rparr> ''/data''
            = Inr (7, fx1)
        \<and> file_size_metric fx1 = [(''/x/y'', 7), (''/x'', 7), (''/e'', 0), (''/'', 7)]
        \<and> map_of (file_size_metric fx1) ''/'' = Some 7
        \<and> map_of (file_size_metric fx1) ''/x/y'' = Some 7
        \<and> map_of (file_size_metric fx1) ''/x'' = Some 7
        \<and> map_of (file_size_metric fx1) ''/e'' = Some 0)"
proof -
  let ?tree = "Dir [(''x'', Dir [(''y'', Dir [(''f'', File 7)])]), (''e'', Dir [])]"
  have l1: "label_of ''/'' ''/data/x/y'' ''/data'' = ''/x/y''" by code_simp
  have l2: "label_of ''/'' ''/data/x'' ''/data'' = ''/x''" by code_simp
  have l3: "label_of ''/'' ''/data/e'' ''/data'' = ''/e''" by code_simp
  have l4: "label_of ''/'' ''/data'' ''/data'' = ''/''" by code_simp
  have ne: "''/data'' \<noteq> []" by simp
  have rep: "represents nested_env ''/data'' ?tree"
    using nested_represents by (simp add: nested_tree_def)
  have deep: "nesting ?tree \<le> 3" by simp
  have cwd: "getcwd nested_env = ''/''" by (simp add: nested_env_def env_of_def)
  have folders: "folders_of ''/data'' ?tree
       = [(''/data/x/y'', Dir [(''f'', File 7)]), (''/data/x'', Dir [(''y'', Dir [(''f'', File 7)])]),
          (''/data/e'', Dir []), (''/data'', ?tree)]"
    by simp
  have d: "distinct (map (\<lambda>(p, folder). label_of (getcwd nested_env) p ''/data'')
                      (folders_of ''/data'' ?tree))"
    by (simp add: cwd l1 l2 l3 l4)
  from reading_is_subtree_file_sum [OF ne rep deep, of "\<lparr>file_size_metric = [], logged = []\<rparr>" "''/data''"]
  obtain fx1 where
    run: "list_dirs_recursive 3 nested_env ''/data'' \<lparr>file_size_metric = [], logged = []\<rparr> ''/data''
            = Inr (sum_list (files_of ?tree), fx1)"
    and samples: "file_size_metric fx1
               = gauge_set_all
                   (map (\<lambda>(p, folder). (label_of (getcwd nested_env) p ''/data'', sum_list (files_of folder)))
                        (folders_of ''/data'' ?tree))
                   (file_size_metric \<lparr>file_size_metric = [], logged = []\<rparr>)"
    and every: "distinct (map (\<lambda>(p, folder). label_of (getcwd nested_env) p ''/data'')
                             (folders_of ''/data'' ?tree))
                \<longrightarrow> (\<forall>(p, folder) \<in> set (folders_of ''/data'' ?tree).
                       map_of (file_size_metric fx1) (label_of (getcwd nested_env) p ''/data'')
                         = Some (py_float (sum_list (files_of folder)))
                       \<and> (\<bar>sum_list (files_of folder)\<bar> < 2 ^ 53 \<longrightarrow>
                            map_of (file_size_metric fx1) (label_of (getcwd nested_env) p ''/data'')
                              = Some (sum_list (files_of folder))))"
    by blast
  from run have run': "list_dirs_recursive 3 nested_env ''/data''
      \<lparr>file_size_metric = [], logged = []\<rparr> ''/data'' = Inr (7, fx1)"
    by simp
  from samples have samples': "file_size_metric fx1 = [(''/x/y'', 7), (''/x'', 7), (''/e'', 0), (''/'', 7)]"
    by (simp add: cwd l1 l2 l3 l4 gauge_set_all_def py_float_below)
  from every d have "\<forall>(p, folder) \<in> set (folders_of ''/data'' ?tree).
                       \<bar>sum_list (files_of folder)\<bar> < 2 ^ 53 \<longrightarrow>
                       map_of (file_size_metric fx1) (label_of (getcwd nested_env) p ''/data'')
                         = Some (sum_list (files_of folder))"
    by blast
  then have "map_of (file_size_metric fx1) ''/'' = Some 7"
    and "map_of (file_size_metric fx1) ''/x/y'' = Some 7"
    and "map_of (file_size_metric fx1) ''/x'' = Some 7"
    and "map_of (file_size_metric fx1) ''/e'' = Some 0"
    by (simp_all add: cwd l1 l2 l3 l4)
  with ne rep deep folders run' samples' show ?thesis by blast
qed




text \<open>
  Claim C5. When the selected partition's \<^verbatim>\<open>barrels/current\<close> holds exactly
  \<^verbatim>\<open>a/file1\<close> (100 bytes), \<^verbatim>\<open>a/b/file2\<close> (50 bytes) and \<^verbatim>\<open>file3\<close> (10 bytes),
  the run produces exactly the three readings \<^verbatim>\<open>/a/b\<close> = 50, \<^verbatim>\<open>/a\<close> = 150 and
  \<^verbatim>\<open>/\<close> = 160, and pushes them: \<^verbatim>\<open>file3\<close> adds to the total of the start path and
  has no reading of its own.
\<close>

theorem scenario_three_readings:
  assumes "isabs (getcwd env)"
      and "client_list env root_path = Some statuses"
      and "valid_folders env root_path statuses \<noteq> []"
      and "represents env
             (root_path @ ''/'' @ last (sort (valid_folders env root_path statuses)) @ ''/barrels/current'')
             scenario_tree"
      and "3 \<le> depth"
  shows "\<exists>r. process_latest_valid_folder depth env root_path = Inr ((), r)
           \<and> file_size_metric r = [(''/a/b'', 50), (''/a'', 150), (''/'', 160)]
           \<and> pushes r = [[(''/a/b'', 50), (''/a'', 150), (''/'', 160)]]"
proof -
  let ?start = "root_path @ ''/'' @ last (sort (valid_folders env root_path statuses)) @ ''/barrels/current''"
  let ?fx = "\<lparr>file_size_metric = [], logged = [Info_only_latest ?start]\<rparr>"
  have ne: "?start \<noteq> []" by simp
  have deep: "nesting scenario_tree \<le> depth"
    using assms(5) by (simp add: scenario_tree_def)
  have walk: "list_dirs_recursive depth env ?start ?fx ?start
                = Inr (sum_list (files_of scenario_tree),
                       after_walk ?fx (readings (getcwd env) ?start ?start scenario_tree)
                         (records (getcwd env) ?start ?start scenario_tree))"
    using ne assms(4) deep by (rule walk_refines)
  have rs: "readings (getcwd env) ?start ?start scenario_tree
              = [(''/a/b'', 50), (''/a'', 150), (''/'', 160)]"
    using assms(1) ne by (rule scenario_readings_of_tree)
  have samples: "file_size_metric
                   (after_walk ?fx (readings (getcwd env) ?start ?start scenario_tree)
                      (records (getcwd env) ?start ?start scenario_tree))
                 = [(''/a/b'', 50), (''/a'', 150), (''/'', 160)]"
    unfolding rs by (simp add: after_walk_def gauge_set_all_def py_float_below)
  show ?thesis
    using assms(2,3) walk samples
    by (simp add: process_latest_valid_folder_def Let_def)
qed

theorem scenario_three_readings_witness:
  "\<exists>r. process_latest_valid_folder 3 scenario_env ''/vol'' = Inr ((), r)
      \<and> file_size_metric r = [(''/a/b'', 50), (''/a'', 150), (''/'', 160)]
      \<and> pushes r = [[(''/a/b'', 50), (''/a'', 150), (''/'', 160)]]"
proof -
  have cwd: "isabs (getcwd scenario_env)"
    by (simp add: scenario_env_def env_of_def isabs_def startswith_def)
  have listed: "client_list scenario_env ''/vol''
      = Some [dir_entry ''2024-01-01'', dir_entry ''2024-02-01'', dir_entry ''2024-03-01'']"
    by (simp add: scenario_env_def env_of_def scenario_table_def)
  have valid: "valid_folders scenario_env ''/vol''
      [dir_entry ''2024-01-01'', dir_entry ''2024-02-01'', dir_entry ''2024-03-01''] \<noteq> []"
    by (simp add: scenario_valid)
  have rep: "represents scenario_env
      (''/vol'' @ ''/'' @ last (sort (valid_folders scenario_env ''/vol''
          [dir_entry ''2024-01-01'', dir_entry ''2024-02-01'', dir_entry ''2024-03-01''])) @ ''/barrels/current'')
      scenario_tree"
    using scenario_represents by (simp add: scenario_valid)
  show ?thesis
    using scenario_three_readings [OF cwd listed valid rep, of 3] by simp
qed

subsection \<open>The selection of the partition\<close>

text \<open>
  Claim C3. The selector picks the greatest name, in the lexicographic order of strings,
  among the \<^verbatim>\<open>DIRECTORY\<close> entries of the root listing whose \<^verbatim>\<open>control\<close> sub-path
  can be listed and has an entry named exactly \<^verbatim>\<open>merge.done\<close>; the other entries play
  no part, whatever their names. The run then walks \<^verbatim>\<open>barrels/current\<close> of that
  partition.
\<close>

theorem latest_folder_is_greatest_valid:
  assumes "client_list env root_path = Some statuses"
      and "valid = {name. \<exists>item control. (name, item) \<in> set statuses
                \<and> item_type item = ''DIRECTORY''
                \<and> client_list env (root_path @ ''/'' @ name @ ''/control'') = Some control
                \<and> ''merge.done'' \<in> fst ` set control}"
      and "valid \<noteq> {}"
  shows "last (sort (valid_folders env root_path statuses)) = Max valid
       \<and> process_latest_valid_folder depth env root_path =
           (case list_dirs_recursive depth env (root_path @ ''/'' @ Max valid @ ''/barrels/current'')
                   \<lparr>file_size_metric = [],
                    logged = [Info_only_latest (root_path @ ''/'' @ Max valid @ ''/barrels/current'')]\<rparr>
                   (root_path @ ''/'' @ Max valid @ ''/barrels/current'') of
              Inl e \<Rightarrow> Inl e
            | Inr (total_size, fx) \<Rightarrow>
                Inr ((), \<lparr>file_size_metric = file_size_metric fx,
                          logged = logged fx @ [if push_to_gateway env (file_size_metric fx)
                                               then Info_pushed else Error_pushing],
                          pushes = [file_size_metric fx],
                          registry_built = True\<rparr>))"
proof -
  have names: "set (valid_folders env root_path statuses) = valid"
    by (simp only: set_valid_folders assms(2))
  with assms(3) have ne: "valid_folders env root_path statuses \<noteq> []" by auto
  then have "last (sort (valid_folders env root_path statuses))
          = Max (set (valid_folders env root_path statuses))"
    by (rule last_sort_Max)
  then have sel: "last (sort (valid_folders env root_path statuses)) = Max valid"
    by (simp only: names)
  show ?thesis
    using assms(1) ne sel by (simp add: process_latest_valid_folder_def Let_def)
qed

theorem latest_folder_is_greatest_valid_witness:
  "Max {name. \<exists>item control.
          (name, item) \<in> set [dir_entry ''2024-01-01'', dir_entry ''2024-02-01'', dir_entry ''2024-03-01'']
          \<and> item_type item = ''DIRECTORY''
          \<and> client_list scenario_env (''/vol'' @ ''/'' @ name @ ''/control'') = Some control
          \<and> ''merge.done'' \<in> fst ` set control} = ''2024-02-01''
   \<and> last (sort (valid_folders scenario_env ''/vol''
         [dir_entry ''2024-01-01'', dir_entry ''2024-02-01'', dir_entry ''2024-03-01''])) = ''2024-02-01''"
proof -
  let ?valid = "{name. \<exists>item control.
          (name, item) \<in> set [dir_entry ''2024-01-01'', dir_entry ''2024-02-01'', dir_entry ''2024-03-01'']
          \<and> item_type item = ''DIRECTORY''
          \<and> client_list scenario_env (''/vol'' @ ''/'' @ name @ ''/control'') = Some control
          \<and> ''merge.done'' \<in> fst ` set control}"
  have "set (valid_folders scenario_env ''/vol''
         [dir_entry ''2024-01-01'', dir_entry ''2024-02-01'', dir_entry ''2024-03-01'']) = ?valid"
    by (rule set_valid_folders)
  then have "?valid = {''2024-02-01''}" by (simp add: scenario_valid)
  then have ne: "?valid \<noteq> {}" by simp
  from latest_folder_is_greatest_valid [OF scenario_listed refl ne, of 3]
  show ?thesis by (simp add: scenario_valid)
qed

text \<open>
  Claim C8, as stated: if no directory under the root passes the \<^verbatim>\<open>merge.done\<close>
  check, the run ends early, nothing is pushed, and no metrics batch is ever constructed.
  The registry and its gauge are constructed at lines 112 to 114, before the root listing
  is searched (lines 116 to 121) and the check of line 123: in \<open>unmerged_env\<close>, where no
  partition is merged, the run ends with both constructed. (They are not where the root
  listing fails, as in \<open>unreachable_env\<close>.)
\<close>

theorem no_valid_folder_nothing_published_counterexample:
  "client_list unmerged_env ''/vol'' = Some [dir_entry ''2024-01-01'', file_entry ''notes'' 3]
   \<and> valid_folders unmerged_env ''/vol'' [dir_entry ''2024-01-01'', file_entry ''notes'' 3] = []
   \<and> process_latest_valid_folder 0 unmerged_env ''/vol''
        = Inr ((), \<lparr>file_size_metric = [], logged = [Info_no_folders], pushes = [],
                    registry_built = True\<rparr>)
   \<and> process_latest_valid_folder 0 unreachable_env ''/vol''
        = Inr ((), \<lparr>file_size_metric = [], logged = [Error_path_unreachable ''/vol''], pushes = [],
                    registry_built = False\<rparr>)"
proof -
  have listed: "client_list unmerged_env ''/vol'' = Some [dir_entry ''2024-01-01'', file_entry ''notes'' 3]"
    by (simp add: unmerged_env_def env_of_def)
  have none: "valid_folders unmerged_env ''/vol'' [dir_entry ''2024-01-01'', file_entry ''notes'' 3] = []"
    by (simp add: valid_folders_def has_merge_done_def unmerged_env_def env_of_def
        dir_entry_def file_entry_def)
  have unreachable: "client_list unreachable_env ''/vol'' = None"
    by (simp add: unreachable_env_def env_of_def)
  from listed none unreachable show ?thesis
    by (simp add: process_latest_valid_folder_def)
qed

text \<open>
  Claim C8, amended: if no directory under the root passes the \<^verbatim>\<open>merge.done\<close> check,
  the run ends early: no push is attempted and no reading is recorded; the registry and its
  gauge have been constructed by then, and stay empty. This holds for every depth, also for
  depth 0, at which any call of \<open>list_dirs_recursive\<close> would raise: the walk is not started.
\<close>

theorem no_valid_folder_nothing_published:
  assumes "client_list env root_path = Some statuses"
      and "\<forall>(name, item) \<in> set statuses.
             item_type item = ''DIRECTORY'' \<longrightarrow> \<not> has_merge_done env (root_path @ ''/'' @ name)"
  shows "process_latest_valid_folder depth env root_path
           = Inr ((), \<lparr>file_size_metric = [], logged = [Info_no_folders], pushes = [],
                       registry_built = True\<rparr>)"
proof -
  from assms(2) have "valid_folders env root_path statuses = []"
    by (auto simp: valid_folders_def filter_empty_conv)
  with assms(1) show ?thesis by (simp add: process_latest_valid_folder_def)
qed

theorem no_valid_folder_nothing_published_witness:
  "client_list unmerged_env ''/vol'' = Some [dir_entry ''2024-01-01'', file_entry ''notes'' 3]
   \<and> \<not> has_merge_done unmerged_env (''/vol'' @ ''/'' @ ''2024-01-01'')
   \<and> process_latest_valid_folder 0 unmerged_env ''/vol''
        = Inr ((), \<lparr>file_size_metric = [], logged = [Info_no_folders], pushes = [],
                    registry_built = True\<rparr>)"
proof -
  have listed: "client_list unmerged_env ''/vol'' = Some [dir_entry ''2024-01-01'', file_entry ''notes'' 3]"
    by (simp add: unmerged_env_def env_of_def)
  have unmerged: "\<not> has_merge_done unmerged_env (''/vol'' @ ''/'' @ ''2024-01-01'')"
    by (simp add: has_merge_done_def unmerged_env_def env_of_def)
  have none: "\<forall>(name, item) \<in> set [dir_entry ''2024-01-01'', file_entry ''notes'' 3].
             item_type item = ''DIRECTORY'' \<longrightarrow> \<not> has_merge_done unmerged_env (''/vol'' @ ''/'' @ name)"
    using unmerged by (simp add: dir_entry_def file_entry_def)
  from no_valid_folder_nothing_published [OF listed none, of 0] listed unmerged
  show ?thesis by simp
qed

subsection \<open>The push\<close>

text \<open>
  Claim C10. After a valid partition has been selected the push is always attempted: when
  the listings below the start path report a tree and the interpreter allows its nesting,
  the run returns and has handed the gauge's samples to \<^verbatim>\<open>push_to_gateway\<close> exactly
  once. This includes the start path whose own listing fails: the walk has then recorded
  no reading, and the push is made with no sample.
\<close>

theorem push_attempted_after_selection:
  assumes "client_list env root_path = Some statuses"
      and "valid_folders env root_path statuses \<noteq> []"
      and "folder_path = root_path @ ''/'' @ last (sort (valid_folders env root_path statuses))
                           @ ''/barrels/current''"
      and "represents env folder_path t"
      and "nesting t \<le> depth"
  shows "\<exists>r. process_latest_valid_folder depth env root_path = Inr ((), r)
           \<and> pushes r = [file_size_metric r]
           \<and> file_size_metric r = gauge_set_all (readings (getcwd env) folder_path folder_path t) []
           \<and> (client_list env folder_path = None \<longrightarrow> pushes r = [[]])"
proof -
  let ?fx = "\<lparr>file_size_metric = [], logged = [Info_only_latest folder_path]\<rparr>"
  let ?fx1 = "after_walk ?fx (readings (getcwd env) folder_path folder_path t)
                (records (getcwd env) folder_path folder_path t)"
  let ?r = "\<lparr>file_size_metric = file_size_metric ?fx1,
             logged = logged ?fx1 @ [if push_to_gateway env (file_size_metric ?fx1)
                                     then Info_pushed else Error_pushing],
             pushes = [file_size_metric ?fx1],
             registry_built = True\<rparr>"
  have ne: "folder_path \<noteq> []" by (simp add: assms(3))
  have walk: "list_dirs_recursive depth env folder_path ?fx folder_path
                = Inr (sum_list (files_of t), ?fx1)"
    using ne assms(4,5) by (rule walk_refines)
  have run: "process_latest_valid_folder depth env root_path = Inr ((), ?r)"
    using assms(1,2) walk [unfolded assms(3)]
    by (simp add: process_latest_valid_folder_def Let_def assms(3))
  have samples: "file_size_metric ?r
                   = gauge_set_all (readings (getcwd env) folder_path folder_path t) []"
    by (simp add: after_walk_def)
  have "client_list env folder_path = None \<longrightarrow> pushes ?r = [[]]"
  proof
    assume "client_list env folder_path = None"
    with assms(4) have "t = Unlistable" by (cases t) simp_all
    then show "pushes ?r = [[]]"
      by (simp add: after_walk_def readings_simps gauge_set_all_def)
  qed
  with run samples show ?thesis by (intro exI [of _ ?r]) simp
qed

theorem push_attempted_after_selection_witness:
  "process_latest_valid_folder 1 bare_env ''/vol''
     = Inr ((), \<lparr>file_size_metric = [],
                logged = [Info_only_latest ''/vol/2024-01-01/barrels/current'',
                          Warning_error_reading_folder ''/vol/2024-01-01/barrels/current'',
                          Info_pushed],
                pushes = [[]],
                registry_built = True\<rparr>)"
proof -
  have listed: "client_list bare_env ''/vol'' = Some [dir_entry ''2024-01-01'']"
    by (simp add: bare_env_def env_of_def)
  have valid: "valid_folders bare_env ''/vol'' [dir_entry ''2024-01-01''] = [''2024-01-01'']"
    by (simp add: valid_folders_def has_merge_done_def bare_env_def env_of_def dir_entry_def file_entry_def)
  then have ne: "valid_folders bare_env ''/vol'' [dir_entry ''2024-01-01''] \<noteq> []" by simp
  have unlistable: "client_list bare_env ''/vol/2024-01-01/barrels/current'' = None"
    by (simp add: bare_env_def env_of_def)
  then have rep: "represents bare_env ''/vol/2024-01-01/barrels/current'' Unlistable" by simp
  have path: "''/vol/2024-01-01/barrels/current''
      = ''/vol'' @ ''/'' @ last (sort (valid_folders bare_env ''/vol'' [dir_entry ''2024-01-01'']))
          @ ''/barrels/current''"
    by (simp add: valid)
  have deep: "nesting Unlistable \<le> 1" by simp
  have pushed: "push_to_gateway bare_env [] = True" by (simp add: bare_env_def env_of_def)
  from push_attempted_after_selection [OF listed ne path rep deep] unlistable
  have "\<exists>r. process_latest_valid_folder 1 bare_env ''/vol'' = Inr ((), r) \<and> pushes r = [[]]"
    by auto
  moreover have "process_latest_valid_folder 1 bare_env ''/vol''
     = Inr ((), \<lparr>file_size_metric = [],
                logged = [Info_only_latest ''/vol/2024-01-01/barrels/current'',
                          Warning_error_reading_folder ''/vol/2024-01-01/barrels/current'',
                          Info_pushed],
                pushes = [[]],
                registry_built = True\<rparr>)"
    using listed valid unlistable pushed
    by (simp add: process_latest_valid_folder_def Let_def)
  ultimately show ?thesis by simp
qed

subsection \<open>A folder that cannot be listed\<close>

text \<open>
  Claim C2, as stated: a directory whose listing fails still gets exactly one reading, of 0
  bytes, returns 0 to its caller, and the walk goes on. The code returns from the
  \<^verbatim>\<open>except\<close> branch (line 67) before it reaches the gauge (line 84): in
  \<^verbatim>\<open>/data\<close>, with a file of 5 bytes and the unlistable folder \<^verbatim>\<open>x\<close>, the walk
  sets the one sample \<^verbatim>\<open>/\<close> = 5 and none for \<^verbatim>\<open>/x\<close>, the label that \<^verbatim>\<open>x\<close>
  would have.
\<close>

theorem unlistable_folder_no_reading_counterexample:
  "client_list faulty_env ''/data/x'' = None
   \<and> folder_label (getcwd faulty_env) ''/data/x'' ''/data'' = Inr ''/x''
   \<and> list_dirs_recursive 2 faulty_env ''/data'' \<lparr>file_size_metric = [], logged = []\<rparr> ''/data''
       = Inr (5, \<lparr>file_size_metric = [(''/'', 5)],
                  logged = [Warning_error_reading_folder ''/data/x'', Info_folder ''/'', Info_size 5]\<rparr>)"
proof -
  have unlistable: "client_list faulty_env ''/data/x'' = None"
    by (simp add: faulty_env_def env_of_def faulty_table_def)
  have listed: "client_list faulty_env ''/data'' = Some [dir_entry ''x'', file_entry ''f1'' 5]"
    by (simp add: faulty_env_def env_of_def faulty_table_def)
  have cwd: "getcwd faulty_env = ''/''" by (simp add: faulty_env_def env_of_def)
  have lx: "folder_label ''/'' ''/data/x'' ''/data'' = Inr ''/x''" by code_simp
  have ltop: "folder_label ''/'' ''/data'' ''/data'' = Inr ''/''" by code_simp
  have "list_dirs_recursive 2 faulty_env ''/data'' \<lparr>file_size_metric = [], logged = []\<rparr> ''/data''
       = Inr (5, \<lparr>file_size_metric = [(''/'', 5)],
                  logged = [Warning_error_reading_folder ''/data/x'', Info_folder ''/'', Info_size 5]\<rparr>)"
    using unlistable listed
    by (simp add: numeral_2_eq_2 cwd ltop dir_entry_def file_entry_def py_float_below)
  with unlistable lx cwd show ?thesis by simp
qed

text \<open>
  Claim C2, amended: for a directory whose listing fails the call logs a warning, records no
  reading (the gauge is left as it was) and returns 0; in the loop of its parent the running
  total is carried on unchanged and the entries after it are processed as before.
\<close>

theorem unlistable_folder_counts_zero:
  assumes "item_type item = ''DIRECTORY''"
      and "client_list env (path @ ''/'' @ name) = None"
  shows "list_dirs_recursive (Suc depth) env (path @ ''/'' @ name) fx base_path
           = Inr (0, fx\<lparr>logged := logged fx @ [Warning_error_reading_folder (path @ ''/'' @ name)]\<rparr>)
       \<and> for_statuses (Suc depth) env path base_path (before @ (name, item) # rest) total_size fx
           = (case for_statuses (Suc depth) env path base_path before total_size fx of
                Inl e \<Rightarrow> Inl e
              | Inr (total1, fx1) \<Rightarrow>
                  for_statuses (Suc depth) env path base_path rest total1
                    (fx1\<lparr>logged := logged fx1 @ [Warning_error_reading_folder (path @ ''/'' @ name)]\<rparr>))"
  using assms by (simp add: for_statuses_append split: sum.splits)

theorem unlistable_folder_counts_zero_witness:
  "item_type (snd (dir_entry ''x'')) = ''DIRECTORY''
   \<and> client_list faulty_env (''/data'' @ ''/'' @ ''x'') = None
   \<and> list_dirs_recursive (Suc 0) faulty_env (''/data'' @ ''/'' @ ''x'')
        \<lparr>file_size_metric = [], logged = []\<rparr> ''/data''
       = Inr (0, \<lparr>file_size_metric = [], logged = [Warning_error_reading_folder ''/data/x'']\<rparr>)
   \<and> for_statuses (Suc 0) faulty_env ''/data'' ''/data'' ([] @ (''x'', snd (dir_entry ''x'')) # [file_entry ''f1'' 5]) 0
        \<lparr>file_size_metric = [], logged = []\<rparr>
       = Inr (5, \<lparr>file_size_metric = [], logged = [Warning_error_reading_folder ''/data/x'']\<rparr>)"
proof -
  have dir: "item_type (snd (dir_entry ''x'')) = ''DIRECTORY''" by (simp add: dir_entry_def)
  have unlistable: "client_list faulty_env (''/data'' @ ''/'' @ ''x'') = None"
    by (simp add: faulty_env_def env_of_def faulty_table_def)
  from unlistable_folder_counts_zero [OF dir unlistable, of 0 "\<lparr>file_size_metric = [], logged = []\<rparr>"
      "''/data''" "[]" "[file_entry ''f1'' 5]" 0] dir unlistable
  show ?thesis by (simp add: file_entry_def)
qed

subsection \<open>The three outcomes of a run\<close>

text \<open>
  Claim C6, as stated: the callable returns success after a push, returns a distinct
  ``skipped'' status when no partition is eligible, and aborts with a fatal error when the
  root listing fails. The function has no \<^verbatim>\<open>return\<close> with a value and catches the
  failure of the root listing (lines 107 to 109): in all three cases it returns
  \<^verbatim>\<open>None\<close> and raises nothing.
\<close>

theorem run_outcomes_counterexample:
  "process_latest_valid_folder 3 unreachable_env ''/vol''
     = Inr ((), \<lparr>file_size_metric = [], logged = [Error_path_unreachable ''/vol''], pushes = [],
                registry_built = False\<rparr>)
   \<and> process_latest_valid_folder 3 unmerged_env ''/vol''
     = Inr ((), \<lparr>file_size_metric = [], logged = [Info_no_folders], pushes = [],
                registry_built = True\<rparr>)
   \<and> process_latest_valid_folder 3 scenario_env ''/vol''
     = Inr ((), \<lparr>file_size_metric = [(''/a/b'', 50), (''/a'', 150), (''/'', 160)],
                logged = [Info_only_latest ''/vol/2024-02-01/barrels/current'',
                          Info_folder ''/a/b'', Info_size 50, Info_folder ''/a'', Info_size 150,
                          Info_folder ''/'', Info_size 160, Info_pushed],
                pushes = [[(''/a/b'', 50), (''/a'', 150), (''/'', 160)]],
                registry_built = True\<rparr>)"
proof -
  have "process_latest_valid_folder 3 unreachable_env ''/vol''
     = Inr ((), \<lparr>file_size_metric = [], logged = [Error_path_unreachable ''/vol''], pushes = [],
                registry_built = False\<rparr>)"
    by (simp add: process_latest_valid_folder_def unreachable_env_def env_of_def)
  moreover have "process_latest_valid_folder 3 unmerged_env ''/vol''
     = Inr ((), \<lparr>file_size_metric = [], logged = [Info_no_folders], pushes = [],
                registry_built = True\<rparr>)"
    by (simp add: process_latest_valid_folder_def unmerged_env_def env_of_def valid_folders_def
        has_merge_done_def dir_entry_def file_entry_def)
  ultimately show ?thesis using scenario_run by simp
qed

text \<open>
  Claim C6, amended: the callable returns \<^verbatim>\<open>None\<close> in all three outcomes, and the
  outcomes differ in what the run leaves behind. When the root listing fails: an error
  record, no push. When no partition is eligible: an info record, no push. Otherwise, when
  the walk returns: the log starts with the record of the walked folder, exactly one push
  is attempted, with the gauge's samples, and the last record tells whether it succeeded.
\<close>

theorem run_outcomes:
  "(client_list env root_path = None \<longrightarrow>
      process_latest_valid_folder depth env root_path
        = Inr ((), \<lparr>file_size_metric = [], logged = [Error_path_unreachable root_path], pushes = [],
                    registry_built = False\<rparr>))
   \<and> (\<forall>statuses. client_list env root_path = Some statuses \<longrightarrow>
         valid_folders env root_path statuses = [] \<longrightarrow>
         process_latest_valid_folder depth env root_path
           = Inr ((), \<lparr>file_size_metric = [], logged = [Info_no_folders], pushes = [],
                registry_built = True\<rparr>))
   \<and> (\<forall>statuses folder_path t.
         client_list env root_path = Some statuses \<longrightarrow>
         valid_folders env root_path statuses \<noteq> [] \<longrightarrow>
         folder_path = root_path @ ''/'' @ last (sort (valid_folders env root_path statuses))
                         @ ''/barrels/current'' \<longrightarrow>
         represents env folder_path t \<longrightarrow> nesting t \<le> depth \<longrightarrow>
         (\<exists>r. process_latest_valid_folder depth env root_path = Inr ((), r)
            \<and> pushes r = [file_size_metric r]
            \<and> hd (logged r) = Info_only_latest folder_path
            \<and> last (logged r) = (if push_to_gateway env (file_size_metric r)
                                  then Info_pushed else Error_pushing)))"
proof (intro conjI allI impI)
  assume "client_list env root_path = None"
  then show "process_latest_valid_folder depth env root_path
        = Inr ((), \<lparr>file_size_metric = [], logged = [Error_path_unreachable root_path], pushes = [],
                    registry_built = False\<rparr>)"
    by (simp add: process_latest_valid_folder_def)
next
  fix statuses
  assume "client_list env root_path = Some statuses" "valid_folders env root_path statuses = []"
  then show "process_latest_valid_folder depth env root_path
           = Inr ((), \<lparr>file_size_metric = [], logged = [Info_no_folders], pushes = [],
                registry_built = True\<rparr>)"
    by (simp add: process_latest_valid_folder_def)
next
  fix statuses folder_path t
  assume listed: "client_list env root_path = Some statuses"
    and valid: "valid_folders env root_path statuses \<noteq> []"
    and path: "folder_path = root_path @ ''/'' @ last (sort (valid_folders env root_path statuses))
                         @ ''/barrels/current''"
    and rep: "represents env folder_path t" and deep: "nesting t \<le> depth"
  let ?fx = "\<lparr>file_size_metric = [], logged = [Info_only_latest folder_path]\<rparr>"
  let ?fx1 = "after_walk ?fx (readings (getcwd env) folder_path folder_path t)
                (records (getcwd env) folder_path folder_path t)"
  let ?r = "\<lparr>file_size_metric = file_size_metric ?fx1,
             logged = logged ?fx1 @ [if push_to_gateway env (file_size_metric ?fx1)
                                     then Info_pushed else Error_pushing],
             pushes = [file_size_metric ?fx1],
             registry_built = True\<rparr>"
  have ne: "folder_path \<noteq> []" by (simp add: path)
  have walk: "list_dirs_recursive depth env folder_path ?fx folder_path
                = Inr (sum_list (files_of t), ?fx1)"
    using ne rep deep by (rule walk_refines)
  have run: "process_latest_valid_folder depth env root_path = Inr ((), ?r)"
    using listed valid walk [unfolded path]
    by (simp add: process_latest_valid_folder_def Let_def path)
  have first: "hd (logged ?r) = Info_only_latest folder_path"
    by (simp add: logged_after_walk)
  have final: "last (logged ?r) = (if push_to_gateway env (file_size_metric ?r)
                                  then Info_pushed else Error_pushing)"
    by simp
  have once: "pushes ?r = [file_size_metric ?r]" by simp
  from run once first final
  show "\<exists>r. process_latest_valid_folder depth env root_path = Inr ((), r)
            \<and> pushes r = [file_size_metric r]
            \<and> hd (logged r) = Info_only_latest folder_path
            \<and> last (logged r) = (if push_to_gateway env (file_size_metric r)
                                  then Info_pushed else Error_pushing)"
    by (intro exI [of _ ?r] conjI)
qed

theorem run_outcomes_witness:
  "client_list unreachable_env ''/vol'' = None
   \<and> process_latest_valid_folder 3 unreachable_env ''/vol''
       = Inr ((), \<lparr>file_size_metric = [], logged = [Error_path_unreachable ''/vol''], pushes = [],
                registry_built = False\<rparr>)
   \<and> valid_folders unmerged_env ''/vol'' [dir_entry ''2024-01-01'', file_entry ''notes'' 3] = []
   \<and> process_latest_valid_folder 3 unmerged_env ''/vol''
       = Inr ((), \<lparr>file_size_metric = [], logged = [Info_no_folders], pushes = [],
                registry_built = True\<rparr>)
   \<and> (\<exists>r. process_latest_valid_folder 3 scenario_env ''/vol'' = Inr ((), r)
          \<and> pushes r = [file_size_metric r]
          \<and> hd (logged r) = Info_only_latest ''/vol/2024-02-01/barrels/current''
          \<and> last (logged r) = Info_pushed)"
proof -
  have unreachable: "client_list unreachable_env ''/vol'' = None"
    by (simp add: unreachable_env_def env_of_def)
  have listed: "client_list unmerged_env ''/vol'' = Some [dir_entry ''2024-01-01'', file_entry ''notes'' 3]"
    by (simp add: unmerged_env_def env_of_def)
  have none: "valid_folders unmerged_env ''/vol'' [dir_entry ''2024-01-01'', file_entry ''notes'' 3] = []"
    by (simp add: valid_folders_def has_merge_done_def unmerged_env_def env_of_def
        dir_entry_def file_entry_def)
  have ne: "valid_folders scenario_env ''/vol''
      [dir_entry ''2024-01-01'', dir_entry ''2024-02-01'', dir_entry ''2024-03-01''] \<noteq> []"
    by (simp add: scenario_valid)
  have path: "''/vol/2024-02-01/barrels/current''
      = ''/vol'' @ ''/'' @ last (sort (valid_folders scenario_env ''/vol''
          [dir_entry ''2024-01-01'', dir_entry ''2024-02-01'', dir_entry ''2024-03-01'']))
          @ ''/barrels/current''"
    by (simp add: scenario_valid)
  have deep: "nesting scenario_tree \<le> 3" by (simp add: scenario_tree_def)
  have pushed: "\<And>samples. push_to_gateway scenario_env samples"
    by (simp add: scenario_env_def env_of_def)
  note first = run_outcomes [of unreachable_env "''/vol''" 3, THEN conjunct1, rule_format, OF unreachable]
  note second = run_outcomes [of unmerged_env "''/vol''" 3, THEN conjunct2, THEN conjunct1,
      rule_format, OF listed none]
  note third = run_outcomes [of scenario_env "''/vol''" 3, THEN conjunct2, THEN conjunct2,
      rule_format, OF scenario_listed ne path scenario_represents deep]
  from third pushed
  have "\<exists>r. process_latest_valid_folder 3 scenario_env ''/vol'' = Inr ((), r)
          \<and> pushes r = [file_size_metric r]
          \<and> hd (logged r) = Info_only_latest ''/vol/2024-02-01/barrels/current''
          \<and> last (logged r) = Info_pushed"
    by simp
  with unreachable first none second show ?thesis by simp
qed

subsection \<open>The order of the entries of a listing\<close>

text \<open>
  Claim C9, as stated: permuting the entries of the listings changes neither the returned
  total nor the set of (label, total) readings. The gauge keeps one sample per label, and
  line 78 turns every backslash of the relative path into a slash: the folders
  \<^verbatim>\<open>a/b\<close> and \<^verbatim>\<open>a\b\<close> below the same start path both get the label
  \<^verbatim>\<open>/a/b\<close>, and the sample that stays is the one of the folder walked last. With
  \<^verbatim>\<open>a\<close> listed first the readings are \<^verbatim>\<open>/a/b\<close> = 2, \<^verbatim>\<open>/a\<close> = 1,
  \<^verbatim>\<open>/\<close> = 3; with \<^verbatim>\<open>a\b\<close> listed first they are \<^verbatim>\<open>/a/b\<close> = 1,
  \<^verbatim>\<open>/a\<close> = 1, \<^verbatim>\<open>/\<close> = 3.
\<close>

theorem reordered_listings_readings_counterexample:
  "reordered clash_env clash_env'
   \<and> list_dirs_recursive 3 clash_env ''/data'' \<lparr>file_size_metric = [], logged = []\<rparr> ''/data''
       = Inr (3, \<lparr>file_size_metric = [(''/a/b'', 2), (''/a'', 1), (''/'', 3)],
                  logged = [Info_folder ''/a/b'', Info_size 1, Info_folder ''/a'', Info_size 1,
                            Info_folder ''/a/b'', Info_size 2, Info_folder ''/'', Info_size 3]\<rparr>)
   \<and> list_dirs_recursive 3 clash_env' ''/data'' \<lparr>file_size_metric = [], logged = []\<rparr> ''/data''
       = Inr (3, \<lparr>file_size_metric = [(''/a/b'', 1), (''/a'', 1), (''/'', 3)],
                  logged = [Info_folder ''/a/b'', Info_size 2, Info_folder ''/a/b'', Info_size 1,
                            Info_folder ''/a'', Info_size 1, Info_folder ''/'', Info_size 3]\<rparr>)"
  using clash_reordered clash_walk clash_walk' by simp

text \<open>
  Claim C9, amended: permuting the entries of the listings leaves the returned total
  unchanged, and leaves the set of (label, total) readings unchanged provided no two listed
  folders of the tree get the same label. (The gauge before the walk holds at most one
  sample per label, as a gauge does.)
\<close>

theorem reordered_listings_same_result:
  assumes "reordered env env'"
      and "path \<noteq> []"
      and "represents env path t"
      and "nesting t \<le> depth"
      and "distinct (map fst (file_size_metric fx))"
  shows "\<exists>fx1 fx1'.
           list_dirs_recursive depth env path fx base_path = Inr (sum_list (files_of t), fx1)
         \<and> list_dirs_recursive depth env' path fx base_path = Inr (sum_list (files_of t), fx1')
         \<and> (distinct (map fst (readings (getcwd env) base_path path t))
              \<longrightarrow> set (file_size_metric fx1') = set (file_size_metric fx1))"
proof -
  from reordered_represents [OF assms(1,3)]
  obtain t' where rep': "represents env' path t'" and perm: "tree_perm t t'" by blast
  from assms(1) have cwd: "getcwd env' = getcwd env" by (simp add: reordered_def)
  let ?rs = "readings (getcwd env) base_path path t"
  let ?rs' = "readings (getcwd env) base_path path t'"
  let ?fx1 = "after_walk fx ?rs (records (getcwd env) base_path path t)"
  let ?fx1' = "after_walk fx ?rs' (records (getcwd env) base_path path t')"
  have run: "list_dirs_recursive depth env path fx base_path = Inr (sum_list (files_of t), ?fx1)"
    using assms(2,3,4) by (rule walk_refines)
  from perm assms(4) have "nesting t' \<le> depth" by (rule tree_perm_nesting)
  with assms(2) rep'
  have "list_dirs_recursive depth env' path fx base_path
          = Inr (sum_list (files_of t'),
                 after_walk fx (readings (getcwd env') base_path path t')
                   (records (getcwd env') base_path path t'))"
    by (rule walk_refines)
  then have run': "list_dirs_recursive depth env' path fx base_path = Inr (sum_list (files_of t), ?fx1')"
    by (simp only: cwd tree_perm_total [OF perm])
  have "distinct (map fst ?rs) \<longrightarrow> set (file_size_metric ?fx1') = set (file_size_metric ?fx1)"
  proof
    assume d: "distinct (map fst ?rs)"
    from perm have "mset ?rs' = mset ?rs" by (simp add: tree_perm_readings)
    then have "set (gauge_set_all ?rs' (file_size_metric fx)) = set (gauge_set_all ?rs (file_size_metric fx))"
      using d assms(5) by (rule gauge_set_all_perm)
    then show "set (file_size_metric ?fx1') = set (file_size_metric ?fx1)"
      by (simp only: samples_after_walk)
  qed
  with run run' show ?thesis by blast
qed

theorem reordered_listings_same_result_witness:
  "reordered nested_env nested_env'
   \<and> distinct (map fst (readings (getcwd nested_env) ''/data'' ''/data'' nested_tree))
   \<and> (\<exists>fx1 fx1'.
         list_dirs_recursive 3 nested_env ''/data'' \<lparr>file_size_metric = [], logged = []\<rparr> ''/data''
           = Inr (7, fx1)
       \<and> list_dirs_recursive 3 nested_env' ''/data'' \<lparr>file_size_metric = [], logged = []\<rparr> ''/data''
           = Inr (7, fx1')
       \<and> set (file_size_metric fx1') = set (file_size_metric fx1))"
proof -
  have l1: "label_of ''/'' ''/data/x/y'' ''/data'' = ''/x/y''" by code_simp
  have l2: "label_of ''/'' ''/data/x'' ''/data'' = ''/x''" by code_simp
  have l3: "label_of ''/'' ''/data/e'' ''/data'' = ''/e''" by code_simp
  have l4: "label_of ''/'' ''/data'' ''/data'' = ''/''" by code_simp
  have cwd: "getcwd nested_env = ''/''" by (simp add: nested_env_def env_of_def)
  have rs: "readings (getcwd nested_env) ''/data'' ''/data'' nested_tree
              = [(''/x/y'', 7), (''/x'', 7), (''/e'', 0), (''/'', 7)]"
    by (simp add: readings_def nested_tree_def cwd l1 l2 l3 l4)
  then have d: "distinct (map fst (readings (getcwd nested_env) ''/data'' ''/data'' nested_tree))"
    by simp
  have ne: "''/data'' \<noteq> []" by simp
  have deep: "nesting nested_tree \<le> 3" by (simp add: nested_tree_def)
  have start: "distinct (map fst (file_size_metric \<lparr>file_size_metric = [], logged = []\<rparr>))" by simp
  from reordered_listings_same_result [OF nested_reordered ne nested_represents deep start, of "''/data''"] d
  show ?thesis using nested_reordered by (simp add: nested_tree_def)
qed

end
